theory Spec2Isabelle
  imports Main "HOL-Library.Word"
begin

unbundle bit_operations_syntax

section \<open>Types and constants\<close>

text \<open>
  Modelled from the spec: \<open>jiffies.h\<close> is not among the sources, so the tick type
  \<open>jiffies_t\<close> is taken as the spec describes it, a wide unsigned integer of 32 bits that
  wraps silently at its maximum. The macro \<open>JIFFIES_PER_SECOND\<close> of the same header is
  not given a value here: every definition that depends on it takes it as the
  parameter \<open>jps\<close>.
\<close>

type_synonym jiffies_t = "32 word"

text \<open>Bit numbers of \<open>avr/io.h\<close> for the ATtiny25/45/85, the part the registers belong to.\<close>

definition TOV0 :: nat where "TOV0 = 1"
definition PINB0 :: nat where "PINB0 = 0"
definition PINB1 :: nat where "PINB1 = 1"
definition PINB2 :: nat where "PINB2 = 2"
definition PINB3 :: nat where "PINB3 = 3"

text \<open>The macros of \<open>main.c\<close>.\<close>

definition POWER_ON_JIFFIES :: jiffies_t where
  "POWER_ON_JIFFIES = 0"

definition SAMPLE_JIFFIES :: "jiffies_t \<Rightarrow> jiffies_t" where
  "SAMPLE_JIFFIES jps = jps"

definition SPIN_UP_JIFFIES :: "jiffies_t \<Rightarrow> jiffies_t" where
  "SPIN_UP_JIFFIES jps = SAMPLE_JIFFIES jps * 5"

definition TOGGLE_COUNT_THRESHOLD :: "32 word" where
  "TOGGLE_COUNT_THRESHOLD = 40"

definition NUM_CHANNELS :: nat where
  "NUM_CHANNELS = 2"

text \<open>
  \<open>enum fsm_state\<close>. The field is an integer in C and the \<open>switch\<close> of \<open>fsm_run\<close> has
  a \<open>default\<close> branch for the values that are none of the four enumerators, so the
  state is a number here and the enumerators are its values 0 to 3.
\<close>

type_synonym fsm_state = nat

definition FSM_STATE_INIT :: fsm_state where "FSM_STATE_INIT = 0"
definition FSM_STATE_POWER_ON :: fsm_state where "FSM_STATE_POWER_ON = 1"
definition FSM_STATE_SPIN_UP :: fsm_state where "FSM_STATE_SPIN_UP = 2"
definition FSM_STATE_RUNNING :: fsm_state where "FSM_STATE_RUNNING = 3"

record rpm_to_locked_rotor_channel =
  state :: fsm_state
  time :: jiffies_t
  prev_sample_time :: jiffies_t
  under_threshold :: bool
  prev_input_state :: bool
  toggles :: "32 word"

text \<open>
  \<open>struct rpm_to_locked_rotor_app\<close>: the array \<open>channels[NUM_CHANNELS]\<close> is a function
  of the index; the loop of \<open>fsm_run\<close> only reaches the indices below \<open>NUM_CHANNELS\<close>.
\<close>

record rpm_to_locked_rotor_app =
  channels :: "nat \<Rightarrow> rpm_to_locked_rotor_channel"

text \<open>The single instance \<open>g_inst\<close>, a C static and therefore zero-initialised.\<close>

definition g_inst :: rpm_to_locked_rotor_app where
  "g_inst = \<lparr>channels = (\<lambda>_. \<lparr>state = FSM_STATE_INIT, time = 0, prev_sample_time = 0,
     under_threshold = False, prev_input_state = False, toggles = 0\<rparr>)\<rparr>"

section \<open>The tick clock (jiffies.c)\<close>

text \<open>
  The state the clock lives in: the static \<open>timer_ticks_hi\<close> of \<open>jiffies.c\<close>, the
  counter register \<open>TCNT0\<close> and the interrupt flag register \<open>TIFR\<close> of Timer0, and
  \<open>DDRB\<close>, which \<open>main.c\<close> writes. \<open>ticks_elapsed\<close> is no register: it counts the
  periods of the timer since \<open>jiffies_init\<close>, so that the value \<open>jiffies\<close> should
  return can be stated. No function of the program reads it.
\<close>

record machine =
  timer_ticks_hi :: jiffies_t
  TCNT0 :: "8 word"
  TIFR :: "8 word"
  DDRB :: "8 word"
  ticks_elapsed :: nat

text \<open>The test \<open>TIFR & (1u << TOV0)\<close>, as \<open>jiffies\<close> converts it to \<open>bool\<close>.\<close>

definition tov0_pending :: "machine \<Rightarrow> bool" where
  "tov0_pending m = (TIFR m AND push_bit TOV0 1 \<noteq> 0)"

text \<open>
  The hardware, as section 4.1 of the specification describes the free-running counter
  and its overflow-pending indicator. One period of the timer increments \<open>TCNT0\<close>;
  when the counter wraps to zero the overflow flag \<open>TOV0\<close> of \<open>TIFR\<close> is set. The
  flag stays set until the overflow interrupt is taken, which clears it.
\<close>

definition hw_tick :: "machine \<Rightarrow> machine" where
  "hw_tick m =
     (let c = TCNT0 m + 1 in
      m\<lparr>TCNT0 := c,
        TIFR := (if c = 0 then TIFR m OR push_bit TOV0 1 else TIFR m),
        ticks_elapsed := ticks_elapsed m + 1\<rparr>)"

text \<open>\<open>n\<close> periods with the interrupts masked: the handler does not run.\<close>

primrec hw_ticks :: "nat \<Rightarrow> machine \<Rightarrow> machine" where
  "hw_ticks 0 m = m"
| "hw_ticks (Suc n) m = hw_ticks n (hw_tick m)"

text \<open>\<open>ISR(TIMER0_OVF_vect)\<close>.\<close>

definition TIMER0_OVF_vect :: "machine \<Rightarrow> machine" where
  "TIMER0_OVF_vect m = m\<lparr>timer_ticks_hi := timer_ticks_hi m + 256\<rparr>"

text \<open>
  With the interrupts enabled a pending overflow is served: the hardware clears the flag
  and the handler runs.
\<close>

definition irq_dispatch :: "machine \<Rightarrow> machine" where
  "irq_dispatch m =
     (if tov0_pending m
      then TIMER0_OVF_vect (m\<lparr>TIFR := TIFR m AND NOT (push_bit TOV0 1)\<rparr>)
      else m)"

text \<open>\<open>n\<close> periods with the interrupts enabled: every overflow is served as it happens.\<close>

primrec run_ticks :: "nat \<Rightarrow> machine \<Rightarrow> machine" where
  "run_ticks 0 m = m"
| "run_ticks (Suc n) m = run_ticks n (irq_dispatch (hw_tick m))"

text \<open>
  \<open>jiffies_init\<close>. Writing a one to \<open>TOV0\<close> in \<open>TIFR\<close> clears the flag. The timer is
  started from zero, which is the origin of \<open>ticks_elapsed\<close>. The control registers
  \<open>TCCR0A\<close>, \<open>TCCR0B\<close> and \<open>TIMSK\<close> only select the rate and enable the interrupt; they are
  not part of the state.
\<close>

definition jiffies_init :: "machine \<Rightarrow> machine" where
  "jiffies_init m =
     m\<lparr>TCNT0 := 0, TIFR := TIFR m AND NOT (push_bit TOV0 1), timer_ticks_hi := 0,
       ticks_elapsed := 0\<rparr>"

text \<open>
  The environment of one call of \<open>jiffies\<close>: the list gives, for each read of a
  register in turn, the number of timer periods that pass before it. When the list
  is used up no more time passes.
\<close>

definition elapse :: "nat list \<Rightarrow> machine \<Rightarrow> nat list \<times> machine" where
  "elapse env m = (case env of [] \<Rightarrow> ([], m) | d # env' \<Rightarrow> (env', hw_ticks d m))"

text \<open>
  The \<open>do ... while\<close> loop of \<open>jiffies\<close>, run with the interrupts masked. It returns
  \<open>tifr_before\<close> and \<open>tcnt\<close> of its last round.
\<close>

function jiffies_loop :: "nat list \<Rightarrow> machine \<Rightarrow> bool \<times> 8 word \<times> nat list \<times> machine" where
  "jiffies_loop env m =
     (case elapse env m of (env1, m1) \<Rightarrow>
        let tifr_before = tov0_pending m1 in
        (case elapse env1 m1 of (env2, m2) \<Rightarrow>
           let tcnt = TCNT0 m2 in
           (case elapse env2 m2 of (env3, m3) \<Rightarrow>
              let tifr_after = tov0_pending m3 in
              if tifr_before \<noteq> tifr_after then jiffies_loop env3 m3
              else (tifr_before, tcnt, env3, m3))))"
  by pat_completeness auto

lemma tov0_pending_bit: "tov0_pending m = bit (TIFR m) 1"
  by (simp only: tov0_pending_def TOV0_def bit_iff_and_push_bit_not_eq_0)

lemma tov0_pending_hw_tick:
  "tov0_pending (hw_tick m) = (tov0_pending m \<or> TCNT0 m + 1 = 0)"
  by (simp add: tov0_pending_bit hw_tick_def Let_def TOV0_def bit_simps)

lemma tov0_pending_hw_ticks: "tov0_pending m \<Longrightarrow> tov0_pending (hw_ticks n m)"
  by (induction n arbitrary: m) (simp_all add: tov0_pending_hw_tick)

lemma tov0_pending_elapse:
  "elapse env m = (env', m') \<Longrightarrow> tov0_pending m \<Longrightarrow> tov0_pending m'"
  by (auto simp: elapse_def tov0_pending_hw_ticks split: list.splits)

termination jiffies_loop
proof (relation "measure (\<lambda>(env, m). if tov0_pending m then 0 else 1)")
  show "wf (measure (\<lambda>(env, m). if tov0_pending m then 0 else (1::nat)))"
    by simp
next
  fix env m x1 env1 m1 tifr_before x2 env2 m2 tcnt x3 env3 m3 tifr_after
  assume e1: "(env1, m1) = elapse env m"
    and b: "tifr_before = tov0_pending m1"
    and e2: "(env2, m2) = elapse env1 m1"
    and e3: "(env3, m3) = elapse env2 m2"
    and a: "tifr_after = tov0_pending m3"
    and ne: "tifr_before \<noteq> tifr_after"
  have k1: "tov0_pending m \<Longrightarrow> tifr_before"
    using tov0_pending_elapse [OF e1 [symmetric]] b by simp
  have k2: "tifr_before \<Longrightarrow> tifr_after"
    using tov0_pending_elapse [OF e2 [symmetric]] tov0_pending_elapse [OF e3 [symmetric]] a b
    by simp
  from ne k2 have "\<not> tifr_before" "tifr_after" by auto
  with k1 a show "((env3, m3), (env, m)) \<in>
      measure (\<lambda>(env, m). if tov0_pending m then 0 else (1::nat))"
    by auto
qed

declare jiffies_loop.simps [simp del]

text \<open>
  \<open>jiffies\<close>. \<open>spin_lock_irqsave\<close> masks the interrupts, so that inside the loop time
  passes by \<open>hw_ticks\<close>; \<open>spin_unlock_irqrestore\<close> restores the caller's interrupt flag,
  which \<open>main\<close> has set, so that an overflow pending at that point is served there.
\<close>

definition jiffies :: "nat list \<Rightarrow> machine \<Rightarrow> jiffies_t \<times> machine" where
  "jiffies env m =
     (case jiffies_loop env m of (tifr_before, tcnt, env', m1) \<Rightarrow>
        let ret = timer_ticks_hi m1 + ucast tcnt;
            m2 = irq_dispatch m1;
            ret = (if tifr_before then ret + 256 else ret)
        in (ret, m2))"

text \<open>
  What the clock shows at an instant: the accumulator plus the counter, and one more
  range of the counter while an overflow waits to be served.
\<close>

definition tick_value :: "machine \<Rightarrow> jiffies_t" where
  "tick_value m =
     timer_ticks_hi m + ucast (TCNT0 m) + (if tov0_pending m then 256 else 0)"

text \<open>The clock is right when it shows the number of periods elapsed, modulo \<open>2 ^ 32\<close>.\<close>

definition synced :: "machine \<Rightarrow> bool" where
  "synced m = (tick_value m = of_nat (ticks_elapsed m))"

text \<open>
  What happens to the clock while \<open>main\<close> runs: timer periods pass with the interrupts
  enabled, or \<open>jiffies\<close> is called in a given environment.
\<close>

datatype event = Ticks nat | Call "nat list"

text \<open>
  The calls of a sequence of events: for each call the number of periods elapsed when
  it is entered, the value it returns and the number of periods elapsed when it
  returns.
\<close>

fun jiffies_trace :: "event list \<Rightarrow> machine \<Rightarrow> (nat \<times> jiffies_t \<times> nat) list" where
  "jiffies_trace [] m = []"
| "jiffies_trace (Ticks n # es) m = jiffies_trace es (run_ticks n m)"
| "jiffies_trace (Call env # es) m =
     (case jiffies env m of
        (ret, m') \<Rightarrow> (ticks_elapsed m, ret, ticks_elapsed m') # jiffies_trace es m')"

text \<open>The values returned, in order.\<close>

definition returned :: "(nat \<times> jiffies_t \<times> nat) list \<Rightarrow> jiffies_t list" where
  "returned tr = map (\<lambda>(entered, ret, left). ret) tr"

text \<open>No call of the sequence spends a whole range of the counter inside \<open>jiffies\<close>.\<close>

fun calls_short :: "event list \<Rightarrow> bool" where
  "calls_short [] = True"
| "calls_short (Ticks n # es) = calls_short es"
| "calls_short (Call env # es) = (sum_list env < 256 \<and> calls_short es)"

section \<open>The pins (main.c)\<close>

text \<open>
  \<open>read_input\<close>, \<open>float_high\<close> and \<open>drive_low\<close> take the channel as a \<open>uint8_t\<close>.
  \<open>read_input\<close> is applied to the value of \<open>PINB\<close> at the moment of the read;
  the other two map the old value of \<open>DDRB\<close> to the new one.
\<close>

definition read_input :: "8 word \<Rightarrow> 8 word \<Rightarrow> bool" where
  "read_input channel pinb =
     (if channel \<noteq> 0 then pinb AND push_bit PINB3 1 \<noteq> 0
      else pinb AND push_bit PINB2 1 \<noteq> 0)"

definition float_high :: "8 word \<Rightarrow> 8 word \<Rightarrow> 8 word" where
  "float_high channel ddrb =
     (if channel \<noteq> 0 then ddrb AND NOT (push_bit PINB1 1)
      else ddrb AND NOT (push_bit PINB0 1))"

definition drive_low :: "8 word \<Rightarrow> 8 word \<Rightarrow> 8 word" where
  "drive_low channel ddrb =
     (if channel \<noteq> 0 then ddrb OR push_bit PINB1 1
      else ddrb OR push_bit PINB0 1)"

text \<open>
  What the outside sees of channel \<open>i\<close>: its pin is an output (and pulls the line low)
  when its bit of \<open>DDRB\<close> is set, and floats high when the bit is clear.
\<close>

definition PIN_OUT :: "nat \<Rightarrow> nat" where
  "PIN_OUT i = (if i \<noteq> 0 then PINB1 else PINB0)"

definition driven_low :: "nat \<Rightarrow> 8 word \<Rightarrow> bool" where
  "driven_low i ddrb = bit ddrb (PIN_OUT i)"

definition floating_high :: "nat \<Rightarrow> 8 word \<Rightarrow> bool" where
  "floating_high i ddrb = (\<not> bit ddrb (PIN_OUT i))"

section \<open>The state machine (main.c, fsm_run)\<close>

text \<open>
  The body of the \<open>for\<close> loop of \<open>fsm_run\<close>: one step of channel \<open>i\<close> at the time
  \<open>curr_time\<close>, where \<open>pinb\<close> is the value \<open>PINB\<close> has when the step reads it.
  The pair is the channel and \<open>DDRB\<close>.
\<close>

definition fsm_channel ::
  "jiffies_t \<Rightarrow> nat \<Rightarrow> jiffies_t \<Rightarrow> 8 word \<Rightarrow>
   rpm_to_locked_rotor_channel \<times> 8 word \<Rightarrow> rpm_to_locked_rotor_channel \<times> 8 word" where
  "fsm_channel jps i curr_time pinb s =
     (case s of (channel, ddrb) \<Rightarrow>
        if state channel = FSM_STATE_INIT then
          (channel\<lparr>time := curr_time, state := FSM_STATE_POWER_ON\<rparr>, ddrb)
        else if state channel = FSM_STATE_POWER_ON then
          (if curr_time - time channel > POWER_ON_JIFFIES then
             (channel\<lparr>state := FSM_STATE_SPIN_UP, time := curr_time,
                       prev_sample_time := curr_time\<rparr>,
              drive_low (of_nat i) ddrb)
           else (channel, ddrb))
        else if state channel = FSM_STATE_SPIN_UP then
          (let curr_input = read_input (of_nat i) pinb;
               channel = (if curr_input \<noteq> prev_input_state channel
                          then channel\<lparr>toggles := toggles channel + 1,
                                       prev_input_state := curr_input\<rparr>
                          else channel);
               channel = (if curr_time - prev_sample_time channel > SAMPLE_JIFFIES jps
                          then (if toggles channel \<ge> TOGGLE_COUNT_THRESHOLD
                                then channel\<lparr>under_threshold := False\<rparr>
                                else channel\<lparr>under_threshold := True\<rparr>)
                               \<lparr>toggles := 0, prev_sample_time := curr_time\<rparr>
                          else channel);
               channel = (if curr_time - time channel > SPIN_UP_JIFFIES jps
                          then channel\<lparr>state := FSM_STATE_RUNNING\<rparr>
                          else channel)
           in (channel, ddrb))
        else if state channel = FSM_STATE_RUNNING then
          (let curr_input = read_input (of_nat i) pinb;
               channel = (if curr_input \<noteq> prev_input_state channel
                          then channel\<lparr>toggles := toggles channel + 1,
                                       prev_input_state := curr_input\<rparr>
                          else channel);
               channel = (if curr_time - prev_sample_time channel > SAMPLE_JIFFIES jps
                          then (if toggles channel \<ge> TOGGLE_COUNT_THRESHOLD
                                then channel\<lparr>under_threshold := False\<rparr>
                                else channel\<lparr>under_threshold := True\<rparr>)
                               \<lparr>toggles := 0, prev_sample_time := curr_time\<rparr>
                          else channel)
           in (channel,
               if under_threshold channel then float_high (of_nat i) ddrb
               else drive_low (of_nat i) ddrb))
        else (channel, float_high (of_nat i) ddrb))"

text \<open>
  The \<open>for\<close> loop of \<open>fsm_run\<close> from index \<open>i\<close> on. \<open>pins i\<close> is the value of \<open>PINB\<close>
  at the read of channel \<open>i\<close>: the register is volatile and each channel reads it anew.
\<close>

function fsm_for ::
  "jiffies_t \<Rightarrow> jiffies_t \<Rightarrow> (nat \<Rightarrow> 8 word) \<Rightarrow> nat \<Rightarrow>
   rpm_to_locked_rotor_app \<times> 8 word \<Rightarrow> rpm_to_locked_rotor_app \<times> 8 word" where
  "fsm_for jps curr_time pins i s =
     (if i < NUM_CHANNELS then
        (case s of (inst, ddrb) \<Rightarrow>
           (case fsm_channel jps i curr_time (pins i) (channels inst i, ddrb) of
              (channel, ddrb') \<Rightarrow>
                fsm_for jps curr_time pins (i + 1)
                  (inst\<lparr>channels := (channels inst)(i := channel)\<rparr>, ddrb')))
      else s)"
  by pat_completeness auto
termination
  by (relation "measure (\<lambda>(jps, curr_time, pins, i, s). NUM_CHANNELS - i)") auto

declare fsm_for.simps [simp del]

text \<open>
  \<open>fsm_run\<close>: the time is read once by \<open>jiffies\<close> and the loop steps every channel
  with it. \<open>env\<close> is the environment of the call of \<open>jiffies\<close>.
\<close>

definition fsm_run ::
  "jiffies_t \<Rightarrow> nat list \<Rightarrow> (nat \<Rightarrow> 8 word) \<Rightarrow>
   rpm_to_locked_rotor_app \<times> machine \<Rightarrow> rpm_to_locked_rotor_app \<times> machine" where
  "fsm_run jps env pins s =
     (case s of (inst, m) \<Rightarrow>
        (case jiffies env m of (curr_time, m') \<Rightarrow>
           (case fsm_for jps curr_time pins 0 (inst, DDRB m') of
              (inst', ddrb') \<Rightarrow> (inst', m'\<lparr>DDRB := ddrb'\<rparr>))))"

text \<open>
  Finitely many rounds of the \<open>while (1)\<close> loop of \<open>main\<close>. Each round is given the
  number of timer periods that pass before it (with the interrupts enabled), the
  environment of its call of \<open>jiffies\<close> and the values of \<open>PINB\<close> its channels read.
\<close>

fun main_loop ::
  "jiffies_t \<Rightarrow> (nat \<times> nat list \<times> (nat \<Rightarrow> 8 word)) list \<Rightarrow>
   rpm_to_locked_rotor_app \<times> machine \<Rightarrow> rpm_to_locked_rotor_app \<times> machine" where
  "main_loop jps [] s = s"
| "main_loop jps ((d, env, pins) # rounds) s =
     (case s of (inst, m) \<Rightarrow>
        main_loop jps rounds (fsm_run jps env pins (inst, run_ticks d m)))"

text \<open>
  The same rounds of the state machine alone, each with the time its call of \<open>jiffies\<close>
  returned: the state machine sees nothing else of the clock.
\<close>

fun fsm_steps ::
  "jiffies_t \<Rightarrow> (jiffies_t \<times> (nat \<Rightarrow> 8 word)) list \<Rightarrow>
   rpm_to_locked_rotor_app \<times> 8 word \<Rightarrow> rpm_to_locked_rotor_app \<times> 8 word" where
  "fsm_steps jps [] s = s"
| "fsm_steps jps ((curr_time, pins) # rounds) s =
     fsm_steps jps rounds (fsm_for jps curr_time pins 0 s)"

text \<open>The steps of one channel alone: the loop body applied for each round in turn.\<close>

fun channel_steps ::
  "jiffies_t \<Rightarrow> nat \<Rightarrow> (jiffies_t \<times> 8 word) list \<Rightarrow>
   rpm_to_locked_rotor_channel \<times> 8 word \<Rightarrow> rpm_to_locked_rotor_channel \<times> 8 word" where
  "channel_steps jps i [] s = s"
| "channel_steps jps i ((curr_time, pinb) # rounds) s =
     channel_steps jps i rounds (fsm_channel jps i curr_time pinb s)"

text \<open>
  The condition under which a step closes a sample window (the test on
  \<open>prev_sample_time\<close> in the branches of \<open>FSM_STATE_SPIN_UP\<close> and \<open>FSM_STATE_RUNNING\<close>;
  the other branches have no such test).
\<close>

definition window_boundary :: "jiffies_t \<Rightarrow> jiffies_t \<Rightarrow> rpm_to_locked_rotor_channel \<Rightarrow> bool" where
  "window_boundary jps curr_time channel =
     ((state channel = FSM_STATE_SPIN_UP \<or> state channel = FSM_STATE_RUNNING) \<and>
      curr_time - prev_sample_time channel > SAMPLE_JIFFIES jps)"

text \<open>
  The number of toggles a step of \<open>FSM_STATE_SPIN_UP\<close> or \<open>FSM_STATE_RUNNING\<close> has
  counted once it has compared the input of channel \<open>i\<close> with \<open>prev_input_state\<close>.
\<close>

definition toggles_counted :: "nat \<Rightarrow> 8 word \<Rightarrow> rpm_to_locked_rotor_channel \<Rightarrow> 32 word" where
  "toggles_counted i pinb channel =
     (if read_input (of_nat i) pinb \<noteq> prev_input_state channel
      then toggles channel + 1 else toggles channel)"

text \<open>
  The sampling step in the words of the specification (section 4.2, steps 1 to 3), for
  comparison with the two copies of it in \<open>fsm_run\<close>: \<open>level\<close> is the input level
  read, \<open>now\<close> the time of the step.
\<close>

definition sampling_step ::
  "jiffies_t \<Rightarrow> jiffies_t \<Rightarrow> bool \<Rightarrow> rpm_to_locked_rotor_channel \<Rightarrow> rpm_to_locked_rotor_channel" where
  "sampling_step jps now level channel =
     (let channel = (if level \<noteq> prev_input_state channel
                     then channel\<lparr>toggles := toggles channel + 1, prev_input_state := level\<rparr>
                     else channel)
      in if now - prev_sample_time channel > SAMPLE_JIFFIES jps
         then channel\<lparr>under_threshold := (toggles channel < TOGGLE_COUNT_THRESHOLD),
                      toggles := 0, prev_sample_time := now\<rparr>
         else channel)"

text \<open>The spec's sampling step, once for each round of a channel.\<close>

fun sampling_steps ::
  "jiffies_t \<Rightarrow> nat \<Rightarrow> (jiffies_t \<times> 8 word) list \<Rightarrow>
   rpm_to_locked_rotor_channel \<Rightarrow> rpm_to_locked_rotor_channel" where
  "sampling_steps jps i [] channel = channel"
| "sampling_steps jps i ((now, pinb) # rounds) channel =
     sampling_steps jps i rounds (sampling_step jps now (read_input (of_nat i) pinb) channel)"

text \<open>The rounds of the whole loop as channel \<open>i\<close> sees them.\<close>

definition rounds_of :: "nat \<Rightarrow> (jiffies_t \<times> (nat \<Rightarrow> 8 word)) list \<Rightarrow> (jiffies_t \<times> 8 word) list" where
  "rounds_of i rounds = map (\<lambda>(curr_time, pins). (curr_time, pins i)) rounds"

section \<open>The loop and its channels\<close>

lemmas fsm_state_defs =
  FSM_STATE_INIT_def FSM_STATE_POWER_ON_def FSM_STATE_SPIN_UP_def FSM_STATE_RUNNING_def

lemma fsm_for_2: "fsm_for jps t pins (Suc (Suc 0)) s = s"
  by (subst fsm_for.simps) (simp add: NUM_CHANNELS_def)

lemma fsm_for_1:
  "fsm_for jps t pins (Suc 0) (inst, ddrb) =
        (case fsm_channel jps (Suc 0) t (pins (Suc 0)) (channels inst (Suc 0), ddrb) of (c1, d1) \<Rightarrow>
           (inst\<lparr>channels := (channels inst)(Suc 0 := c1)\<rparr>, d1))"
  by (subst fsm_for.simps) (simp add: NUM_CHANNELS_def fsm_for_2 split: prod.splits)

lemma fsm_for_0:
  "fsm_for jps t pins 0 (inst, ddrb) =
     (case fsm_channel jps 0 t (pins 0) (channels inst 0, ddrb) of (c0, d0) \<Rightarrow>
        (case fsm_channel jps 1 t (pins 1) (channels inst 1, d0) of (c1, d1) \<Rightarrow>
           (inst\<lparr>channels := (channels inst)(0 := c0, 1 := c1)\<rparr>, d1)))"
  by (subst fsm_for.simps) (simp add: NUM_CHANNELS_def fsm_for_1 split: prod.splits)

lemma fsm_channel_fst:
  "fst (fsm_channel jps i t p (ch, d)) = fst (fsm_channel jps i t p (ch, d'))"
  by (simp add: fsm_channel_def Let_def)

lemma other_bit:
  "i < NUM_CHANNELS \<Longrightarrow> j < NUM_CHANNELS \<Longrightarrow> i \<noteq> j \<Longrightarrow>
   bit (snd (fsm_channel jps j t p (ch, d))) (PIN_OUT i) = bit d (PIN_OUT i)"
  apply (simp add: NUM_CHANNELS_def less_Suc_eq numeral_2_eq_2)
  apply (elim disjE)
  apply (simp_all add: fsm_channel_def Let_def PIN_OUT_def float_high_def drive_low_def PINB0_def PINB1_def bit_simps)
  done

lemma own_bit:
  "i < NUM_CHANNELS \<Longrightarrow> bit d (PIN_OUT i) = bit d' (PIN_OUT i) \<Longrightarrow>
   bit (snd (fsm_channel jps i t p (ch, d))) (PIN_OUT i) =
   bit (snd (fsm_channel jps i t p (ch, d'))) (PIN_OUT i)"
  apply (simp add: NUM_CHANNELS_def less_Suc_eq numeral_2_eq_2)
  apply (elim disjE)
  apply (simp_all add: fsm_channel_def Let_def PIN_OUT_def float_high_def drive_low_def PINB0_def PINB1_def bit_simps)
  done

lemma fsm_channel_INIT:
  "state ch = FSM_STATE_INIT \<Longrightarrow>
   fsm_channel jps i t p (ch, d) = (ch\<lparr>time := t, state := FSM_STATE_POWER_ON\<rparr>, d)"
  by (simp add: fsm_channel_def)

lemma fsm_channel_POWER_ON:
  "state ch = FSM_STATE_POWER_ON \<Longrightarrow>
   fsm_channel jps i t p (ch, d) =
     (if t - time ch > POWER_ON_JIFFIES
      then (ch\<lparr>state := FSM_STATE_SPIN_UP, time := t, prev_sample_time := t\<rparr>,
            drive_low (of_nat i) d)
      else (ch, d))"
  by (simp add: fsm_channel_def fsm_state_defs)

lemma fsm_channel_SPIN_UP:
  "state ch = FSM_STATE_SPIN_UP \<Longrightarrow>
   fsm_channel jps i t p (ch, d) =
     ((sampling_step jps t (read_input (of_nat i) p) ch)
        \<lparr>state := (if t - time ch > SPIN_UP_JIFFIES jps then FSM_STATE_RUNNING
                    else FSM_STATE_SPIN_UP)\<rparr>, d)"
  by (simp add: fsm_channel_def fsm_state_defs sampling_step_def Let_def not_le)

lemma fsm_channel_RUNNING:
  "state ch = FSM_STATE_RUNNING \<Longrightarrow>
   fsm_channel jps i t p (ch, d) =
     (let c = sampling_step jps t (read_input (of_nat i) p) ch
      in (c, if under_threshold c then float_high (of_nat i) d else drive_low (of_nat i) d))"
  by (auto simp add: fsm_channel_def fsm_state_defs sampling_step_def Let_def not_le)

lemma fsm_channel_default:
  "state ch > FSM_STATE_RUNNING \<Longrightarrow>
   fsm_channel jps i t p (ch, d) = (ch, float_high (of_nat i) d)"
  by (simp add: fsm_channel_def fsm_state_defs)

lemma channel_steps_append:
  "channel_steps jps i (xs @ ys) s = channel_steps jps i ys (channel_steps jps i xs s)"
  by (induction jps i xs s rule: channel_steps.induct) simp_all

lemma fsm_steps_append:
  "fsm_steps jps (xs @ ys) s = fsm_steps jps ys (fsm_steps jps xs s)"
  by (induction jps xs s rule: fsm_steps.induct) simp_all

lemma fsm_for_channel:
  assumes "i < NUM_CHANNELS" "bit d (PIN_OUT i) = bit d' (PIN_OUT i)"
  shows "channels (fst (fsm_for jps t pins 0 (inst, d))) i =
           fst (fsm_channel jps i t (pins i) (channels inst i, d')) \<and>
         bit (snd (fsm_for jps t pins 0 (inst, d))) (PIN_OUT i) =
           bit (snd (fsm_channel jps i t (pins i) (channels inst i, d'))) (PIN_OUT i)"
proof -
  obtain c0 d0 where s0: "fsm_channel jps 0 t (pins 0) (channels inst 0, d) = (c0, d0)"
    by (cases "fsm_channel jps 0 t (pins 0) (channels inst 0, d)")
  obtain c1 d1 where s1: "fsm_channel jps (Suc 0) t (pins (Suc 0)) (channels inst (Suc 0), d0) = (c1, d1)"
    by (cases "fsm_channel jps (Suc 0) t (pins (Suc 0)) (channels inst (Suc 0), d0)")
  have r: "fsm_for jps t pins 0 (inst, d) = (inst\<lparr>channels := (channels inst)(0 := c0, Suc 0 := c1)\<rparr>, d1)"
    by (simp add: fsm_for_0 s0 s1)
  from assms(1) have "i = 0 \<or> i = Suc 0"
    by (auto simp: NUM_CHANNELS_def)
  then show ?thesis
  proof
    assume i: "i = 0"
    have a: "c0 = fst (fsm_channel jps 0 t (pins 0) (channels inst 0, d'))"
      using s0 fsm_channel_fst [of jps 0 t "pins 0" "channels inst 0" d d'] by simp
    have "bit d1 (PIN_OUT 0) = bit d0 (PIN_OUT 0)"
      using other_bit [of 0 "Suc 0" jps t "pins (Suc 0)" "channels inst (Suc 0)" d0] s1
      by (simp add: NUM_CHANNELS_def)
    also have "\<dots> = bit (snd (fsm_channel jps 0 t (pins 0) (channels inst 0, d'))) (PIN_OUT 0)"
      using own_bit [of 0 d d' jps t "pins 0" "channels inst 0"] assms(2) s0 i
      by (simp add: NUM_CHANNELS_def)
    finally show ?thesis using a i r by simp
  next
    assume i: "i = Suc 0"
    have a: "c1 = fst (fsm_channel jps (Suc 0) t (pins (Suc 0)) (channels inst (Suc 0), d'))"
      using s1 fsm_channel_fst [of jps "Suc 0" t "pins (Suc 0)" "channels inst (Suc 0)" d0 d'] by simp
    have "bit d0 (PIN_OUT (Suc 0)) = bit d (PIN_OUT (Suc 0))"
      using other_bit [of "Suc 0" 0 jps t "pins 0" "channels inst 0" d] s0
      by (simp add: NUM_CHANNELS_def)
    then have "bit d0 (PIN_OUT (Suc 0)) = bit d' (PIN_OUT (Suc 0))"
      using assms(2) i by simp
    then have "bit d1 (PIN_OUT (Suc 0)) =
        bit (snd (fsm_channel jps (Suc 0) t (pins (Suc 0)) (channels inst (Suc 0), d'))) (PIN_OUT (Suc 0))"
      using own_bit [of "Suc 0" d0 d' jps t "pins (Suc 0)" "channels inst (Suc 0)"] s1
      by (simp add: NUM_CHANNELS_def)
    then show ?thesis using a i r by simp
  qed
qed

lemma fsm_for_other:
  "NUM_CHANNELS \<le> i \<Longrightarrow> channels (fst (fsm_for jps t pins 0 (inst, d))) i = channels inst i"
  by (simp add: fsm_for_0 NUM_CHANNELS_def split: prod.splits)

lemma fsm_steps_channel:
  "i < NUM_CHANNELS \<Longrightarrow> bit d (PIN_OUT i) = bit d' (PIN_OUT i) \<Longrightarrow>
   channels (fst (fsm_steps jps xs (inst, d))) i =
     fst (channel_steps jps i (rounds_of i xs) (channels inst i, d')) \<and>
   bit (snd (fsm_steps jps xs (inst, d))) (PIN_OUT i) =
     bit (snd (channel_steps jps i (rounds_of i xs) (channels inst i, d'))) (PIN_OUT i)"
proof (induction xs arbitrary: inst d d')
  case Nil
  then show ?case by (simp add: rounds_of_def)
next
  case (Cons x xs)
  obtain t pins where x: "x = (t, pins)" by (cases x)
  obtain inst1 d1 where f: "fsm_for jps t pins 0 (inst, d) = (inst1, d1)"
    by (cases "fsm_for jps t pins 0 (inst, d)")
  obtain c1 e1 where g: "fsm_channel jps i t (pins i) (channels inst i, d') = (c1, e1)"
    by (cases "fsm_channel jps i t (pins i) (channels inst i, d')")
  from fsm_for_channel [OF Cons.prems, of jps t pins inst] f g
  have h: "channels inst1 i = c1" "bit d1 (PIN_OUT i) = bit e1 (PIN_OUT i)"
    by simp_all
  from Cons.IH [OF Cons.prems(1) h(2), of inst1] h(1)
  show ?case by (simp add: x f g rounds_of_def)
qed

section \<open>Helper facts about single steps\<close>

lemma float_high_bit:
  "i < NUM_CHANNELS \<Longrightarrow> \<not> bit (float_high (of_nat i) d) (PIN_OUT i)"
  by (auto simp add: NUM_CHANNELS_def less_Suc_eq numeral_2_eq_2 float_high_def PIN_OUT_def
      PINB0_def PINB1_def bit_simps)

lemma drive_low_bit:
  "i < NUM_CHANNELS \<Longrightarrow> bit (drive_low (of_nat i) d) (PIN_OUT i)"
  by (auto simp add: NUM_CHANNELS_def less_Suc_eq numeral_2_eq_2 drive_low_def PIN_OUT_def
      PINB0_def PINB1_def bit_simps)

lemma sampling_step_state [simp]: "state (sampling_step jps t l ch) = state ch"
  by (simp add: sampling_step_def Let_def)

lemma sampling_step_time [simp]: "time (sampling_step jps t l ch) = time ch"
  by (simp add: sampling_step_def Let_def)

lemma fsm_channel_cases:
  "state ch = FSM_STATE_INIT \<or> state ch = FSM_STATE_POWER_ON \<or> state ch = FSM_STATE_SPIN_UP \<or>
   state ch = FSM_STATE_RUNNING \<or> FSM_STATE_RUNNING < state ch"
  by (auto simp: fsm_state_defs)

lemma fsm_channel_state_step:
  "state (fst (fsm_channel jps i t p (ch, d))) = state ch \<or>
   (state (fst (fsm_channel jps i t p (ch, d))) = Suc (state ch) \<and> state ch < FSM_STATE_RUNNING)"
  using fsm_channel_cases [of ch]
  by (elim disjE)
     (simp_all add: fsm_channel_INIT fsm_channel_POWER_ON fsm_channel_SPIN_UP
        fsm_channel_RUNNING fsm_channel_default Let_def fsm_state_defs)

lemma channel_steps_default:
  "i < NUM_CHANNELS \<Longrightarrow> FSM_STATE_RUNNING < state ch \<Longrightarrow>
   fst (channel_steps jps i xs (ch, d)) = ch \<and>
   (xs \<noteq> [] \<or> \<not> bit d (PIN_OUT i) \<longrightarrow> \<not> bit (snd (channel_steps jps i xs (ch, d))) (PIN_OUT i))"
proof (induction xs arbitrary: d)
  case Nil
  then show ?case by simp
next
  case (Cons x xs)
  obtain t p where x: "x = (t, p)" by (cases x)
  from Cons.IH [OF Cons.prems, of "float_high (of_nat i) d"] float_high_bit [OF Cons.prems(1), of d]
  show ?case by (simp add: x fsm_channel_default [OF Cons.prems(2)])
qed

section \<open>Unknown states\<close>

text \<open>
  C8. When the state field of a channel holds none of the four enumerators, every round of
  the loop leaves the channel as it is (so it stays in that state for good) and leaves
  its output floating high.
\<close>

theorem fail_safe_unknown_state:
  assumes "i < NUM_CHANNELS"
    and "state (channels inst i) \<notin>
           {FSM_STATE_INIT, FSM_STATE_POWER_ON, FSM_STATE_SPIN_UP, FSM_STATE_RUNNING}"
    and "rounds \<noteq> []"
  shows "channels (fst (fsm_steps jps rounds (inst, ddrb))) i = channels inst i \<and>
         floating_high i (snd (fsm_steps jps rounds (inst, ddrb)))"
proof -
  from assms(2) have big: "FSM_STATE_RUNNING < state (channels inst i)"
    using fsm_channel_cases [of "channels inst i"] by auto
  from assms(3) have ne: "rounds_of i rounds \<noteq> []"
    by (simp add: rounds_of_def)
  from fsm_steps_channel [OF assms(1), of ddrb ddrb jps rounds inst]
    channel_steps_default [OF assms(1) big, of jps "rounds_of i rounds" ddrb] ne
  show ?thesis by (simp add: floating_high_def)
qed

theorem fail_safe_unknown_state_witness:
  "(1::nat) < NUM_CHANNELS \<and>
   state (channels (g_inst\<lparr>channels := (channels g_inst)(1 := (channels g_inst 1)\<lparr>state := 7\<rparr>)\<rparr>) 1)
     \<notin> {FSM_STATE_INIT, FSM_STATE_POWER_ON, FSM_STATE_SPIN_UP, FSM_STATE_RUNNING} \<and>
   [(5 :: jiffies_t, \<lambda>_ :: nat. 0 :: 8 word)] \<noteq> [] \<and>
   channels (fst (fsm_steps 125000 [(5, \<lambda>_. 0)]
      (g_inst\<lparr>channels := (channels g_inst)(1 := (channels g_inst 1)\<lparr>state := 7\<rparr>)\<rparr>, 255))) 1 =
     channels (g_inst\<lparr>channels := (channels g_inst)(1 := (channels g_inst 1)\<lparr>state := 7\<rparr>)\<rparr>) 1 \<and>
   floating_high 1 (snd (fsm_steps 125000 [(5, \<lambda>_. 0)]
      (g_inst\<lparr>channels := (channels g_inst)(1 := (channels g_inst 1)\<lparr>state := 7\<rparr>)\<rparr>, 255)))"
  using fail_safe_unknown_state [of 1
      "g_inst\<lparr>channels := (channels g_inst)(1 := (channels g_inst 1)\<lparr>state := 7\<rparr>)\<rparr>"
      "[(5, \<lambda>_. 0)]" 125000 255]
  by (simp add: NUM_CHANNELS_def g_inst_def fsm_state_defs)

section \<open>The output\<close>

lemma fsm_channel_spin_up_low:
  assumes "i < NUM_CHANNELS" and "state ch = FSM_STATE_SPIN_UP \<longrightarrow> bit d (PIN_OUT i)"
  shows "state (fst (fsm_channel jps i t p (ch, d))) = FSM_STATE_SPIN_UP \<longrightarrow>
         bit (snd (fsm_channel jps i t p (ch, d))) (PIN_OUT i)"
  using fsm_channel_cases [of ch] assms drive_low_bit [OF assms(1), of d]
  by (elim disjE)
     (simp_all add: fsm_channel_INIT fsm_channel_POWER_ON fsm_channel_SPIN_UP
        fsm_channel_RUNNING fsm_channel_default Let_def fsm_state_defs)

lemma channel_steps_spin_up_low:
  "i < NUM_CHANNELS \<Longrightarrow> state ch = FSM_STATE_SPIN_UP \<longrightarrow> bit d (PIN_OUT i) \<Longrightarrow>
   state (fst (channel_steps jps i xs (ch, d))) = FSM_STATE_SPIN_UP \<longrightarrow>
   bit (snd (channel_steps jps i xs (ch, d))) (PIN_OUT i)"
proof (induction xs arbitrary: ch d)
  case Nil
  then show ?case by simp
next
  case (Cons x xs)
  obtain t p where x: "x = (t, p)" by (cases x)
  obtain c1 d1 where f: "fsm_channel jps i t p (ch, d) = (c1, d1)"
    by (cases "fsm_channel jps i t p (ch, d)")
  from fsm_channel_spin_up_low [OF Cons.prems, of jps t p] f
  have "state c1 = FSM_STATE_SPIN_UP \<longrightarrow> bit d1 (PIN_OUT i)" by simp
  from Cons.IH [OF Cons.prems(1) this] show ?case by (simp add: x f)
qed

lemma fsm_channel_running_output:
  assumes "i < NUM_CHANNELS" and "state ch = FSM_STATE_RUNNING"
  shows "bit (snd (fsm_channel jps i t p (ch, d))) (PIN_OUT i) =
         (\<not> under_threshold (fst (fsm_channel jps i t p (ch, d))))"
  using float_high_bit [OF assms(1), of d] drive_low_bit [OF assms(1), of d]
  by (simp add: fsm_channel_RUNNING [OF assms(2)] Let_def)

lemma fsm_channel_output_indep:
  assumes "state ch \<noteq> FSM_STATE_RUNNING"
  shows "snd (fsm_channel jps i t p (ch\<lparr>under_threshold := u\<rparr>, d)) =
         snd (fsm_channel jps i t p (ch, d))"
proof -
  from assms fsm_channel_cases [of ch]
  consider "state ch = FSM_STATE_INIT" | "state ch = FSM_STATE_POWER_ON"
    | "state ch = FSM_STATE_SPIN_UP" | "FSM_STATE_RUNNING < state ch"
    by blast
  then show ?thesis
    by cases
       (simp_all add: fsm_channel_INIT fsm_channel_POWER_ON fsm_channel_SPIN_UP
          fsm_channel_default)
qed

text \<open>
  C6. In a run that begins with the output low whenever the channel is in
  \<open>FSM_STATE_SPIN_UP\<close> (in particular one that begins in \<open>FSM_STATE_INIT\<close>), the
  output of a channel that is in \<open>FSM_STATE_SPIN_UP\<close> is driven low, whatever
  \<open>under_threshold\<close> holds. A round that finds the channel in \<open>FSM_STATE_RUNNING\<close>
  leaves the output floating high when \<open>under_threshold\<close> is then true and driven low
  when it is false; a round that finds it in any other state leaves the output the same
  whatever \<open>under_threshold\<close> holds.
\<close>

theorem output_follows_state:
  assumes "i < NUM_CHANNELS"
    and "state (channels inst i) = FSM_STATE_SPIN_UP \<longrightarrow> driven_low i ddrb"
  shows "(state (channels (fst (fsm_steps jps rounds (inst, ddrb))) i) = FSM_STATE_SPIN_UP \<longrightarrow>
            driven_low i (snd (fsm_steps jps rounds (inst, ddrb)))) \<and>
         (state (channels inst' i) = FSM_STATE_RUNNING \<longrightarrow>
            floating_high i (snd (fsm_for jps curr_time pins 0 (inst', ddrb'))) =
              under_threshold (channels (fst (fsm_for jps curr_time pins 0 (inst', ddrb'))) i) \<and>
            driven_low i (snd (fsm_for jps curr_time pins 0 (inst', ddrb'))) =
              (\<not> under_threshold (channels (fst (fsm_for jps curr_time pins 0 (inst', ddrb'))) i))) \<and>
         (state (channels inst' i) \<noteq> FSM_STATE_RUNNING \<longrightarrow>
            driven_low i (snd (fsm_for jps curr_time pins 0
              (inst'\<lparr>channels := (channels inst')
                 (i := (channels inst' i)\<lparr>under_threshold := u\<rparr>)\<rparr>, ddrb'))) =
            driven_low i (snd (fsm_for jps curr_time pins 0 (inst', ddrb'))))"
proof (intro conjI impI)
  assume "state (channels (fst (fsm_steps jps rounds (inst, ddrb))) i) = FSM_STATE_SPIN_UP"
  with fsm_steps_channel [OF assms(1), of ddrb ddrb jps rounds inst]
    channel_steps_spin_up_low [OF assms(1), of "channels inst i" ddrb jps "rounds_of i rounds"]
    assms(2)
  show "driven_low i (snd (fsm_steps jps rounds (inst, ddrb)))"
    by (simp add: driven_low_def)
next
  assume r: "state (channels inst' i) = FSM_STATE_RUNNING"
  from fsm_for_channel [OF assms(1), of ddrb' ddrb' jps curr_time pins inst']
    fsm_channel_running_output [OF assms(1) r, of jps curr_time "pins i" ddrb']
  show "floating_high i (snd (fsm_for jps curr_time pins 0 (inst', ddrb'))) =
          under_threshold (channels (fst (fsm_for jps curr_time pins 0 (inst', ddrb'))) i)"
    and "driven_low i (snd (fsm_for jps curr_time pins 0 (inst', ddrb'))) =
          (\<not> under_threshold (channels (fst (fsm_for jps curr_time pins 0 (inst', ddrb'))) i))"
    by (simp_all add: floating_high_def driven_low_def)
next
  assume n: "state (channels inst' i) \<noteq> FSM_STATE_RUNNING"
  let ?inst = "inst'\<lparr>channels := (channels inst')
                 (i := (channels inst' i)\<lparr>under_threshold := u\<rparr>)\<rparr>"
  from fsm_for_channel [OF assms(1), of ddrb' ddrb' jps curr_time pins ?inst]
    fsm_for_channel [OF assms(1), of ddrb' ddrb' jps curr_time pins inst']
    fsm_channel_output_indep [OF n, of jps i curr_time "pins i" u ddrb']
  show "driven_low i (snd (fsm_for jps curr_time pins 0 (?inst, ddrb'))) =
        driven_low i (snd (fsm_for jps curr_time pins 0 (inst', ddrb')))"
    by (simp add: driven_low_def)
qed

theorem output_follows_state_witness:
  "(0::nat) < NUM_CHANNELS \<and>
   state (channels \<lparr>channels = (\<lambda>_. \<lparr>state = FSM_STATE_SPIN_UP, time = 10,
      prev_sample_time = 10, under_threshold = True, prev_input_state = False,
      toggles = 0\<rparr>)\<rparr> 0) = FSM_STATE_SPIN_UP \<and>
   driven_low 0 1 \<and>
   state (channels (fst (fsm_steps 125000 [(20, \<lambda>_. 0)]
     (\<lparr>channels = (\<lambda>_. \<lparr>state = FSM_STATE_SPIN_UP, time = 10,
      prev_sample_time = 10, under_threshold = True, prev_input_state = False,
      toggles = 0\<rparr>)\<rparr>, 1))) 0) = FSM_STATE_SPIN_UP \<and>
   under_threshold (channels (fst (fsm_steps 125000 [(20, \<lambda>_. 0)]
     (\<lparr>channels = (\<lambda>_. \<lparr>state = FSM_STATE_SPIN_UP, time = 10,
      prev_sample_time = 10, under_threshold = True, prev_input_state = False,
      toggles = 0\<rparr>)\<rparr>, 1))) 0) \<and>
   driven_low 0 (snd (fsm_steps 125000 [(20, \<lambda>_. 0)]
     (\<lparr>channels = (\<lambda>_. \<lparr>state = FSM_STATE_SPIN_UP, time = 10,
      prev_sample_time = 10, under_threshold = True, prev_input_state = False,
      toggles = 0\<rparr>)\<rparr>, 1))) \<and>
   state (channels \<lparr>channels = (\<lambda>_. \<lparr>state = FSM_STATE_RUNNING, time = 10,
      prev_sample_time = 10, under_threshold = False, prev_input_state = False,
      toggles = 0\<rparr>)\<rparr> 0) = FSM_STATE_RUNNING \<and>
   under_threshold (channels (fst (fsm_for 125000 200000 (\<lambda>_. 0) 0
     (\<lparr>channels = (\<lambda>_. \<lparr>state = FSM_STATE_RUNNING, time = 10,
      prev_sample_time = 10, under_threshold = False, prev_input_state = False,
      toggles = 0\<rparr>)\<rparr>, 1))) 0) \<and>
   floating_high 0 (snd (fsm_for 125000 200000 (\<lambda>_. 0) 0
     (\<lparr>channels = (\<lambda>_. \<lparr>state = FSM_STATE_RUNNING, time = 10,
      prev_sample_time = 10, under_threshold = False, prev_input_state = False,
      toggles = 0\<rparr>)\<rparr>, 1))) \<and>
   state (channels \<lparr>channels = (\<lambda>_. \<lparr>state = FSM_STATE_SPIN_UP, time = 10,
      prev_sample_time = 10, under_threshold = True, prev_input_state = False,
      toggles = 0\<rparr>)\<rparr> 0) \<noteq> FSM_STATE_RUNNING \<and>
   driven_low 0 (snd (fsm_for 125000 20 (\<lambda>_. 0) 0
     (\<lparr>channels = (\<lambda>_. \<lparr>state = FSM_STATE_SPIN_UP, time = 10,
      prev_sample_time = 10, under_threshold = True, prev_input_state = False,
      toggles = 0\<rparr>)\<rparr>, 1))) \<and>
   driven_low 0 (snd (fsm_for 125000 20 (\<lambda>_. 0) 0
     (\<lparr>channels = (\<lambda>_. \<lparr>state = FSM_STATE_SPIN_UP, time = 10,
      prev_sample_time = 10, under_threshold = True, prev_input_state = False,
      toggles = 0\<rparr>)\<rparr>\<lparr>channels := (\<lambda>_. \<lparr>state = FSM_STATE_SPIN_UP, time = 10,
      prev_sample_time = 10, under_threshold = True, prev_input_state = False,
      toggles = 0\<rparr>)(0 := \<lparr>state = FSM_STATE_SPIN_UP, time = 10,
      prev_sample_time = 10, under_threshold = False, prev_input_state = False,
      toggles = 0\<rparr>)\<rparr>, 1)))"
proof -
  let ?s = "\<lparr>state = FSM_STATE_SPIN_UP, time = 10,
      prev_sample_time = 10, under_threshold = True, prev_input_state = False,
      toggles = 0\<rparr>"
  let ?r = "\<lparr>state = FSM_STATE_RUNNING, time = 10,
      prev_sample_time = 10, under_threshold = False, prev_input_state = False,
      toggles = 0\<rparr>"
  let ?spin = "\<lparr>channels = (\<lambda>_. ?s)\<rparr>"
  let ?run = "\<lparr>channels = (\<lambda>_. ?r)\<rparr>"
  have k: "(0::nat) < NUM_CHANNELS" by (simp add: NUM_CHANNELS_def)
  have low: "driven_low 0 1" by (simp add: driven_low_def PIN_OUT_def PINB0_def)
  have s0: "state (channels ?spin 0) = FSM_STATE_SPIN_UP" by simp
  have r0: "state (channels ?run 0) = FSM_STATE_RUNNING" by simp
  have n0: "state (channels ?spin 0) \<noteq> FSM_STATE_RUNNING" by (simp add: fsm_state_defs)
  have c1: "fst (fsm_channel 125000 0 20 0 (?s, d)) = ?s" for d
    by (simp add: fsm_channel_SPIN_UP sampling_step_def read_input_def PINB2_def
        SAMPLE_JIFFIES_def SPIN_UP_JIFFIES_def)
  have st: "channels (fst (fsm_steps 125000 [(20, \<lambda>_. 0)] (?spin, 1))) 0 = ?s"
    using fsm_steps_channel [OF k, of 1 1 125000 "[(20, \<lambda>_. 0)]" ?spin]
    by (simp add: rounds_of_def c1)
  have c2: "under_threshold (fst (fsm_channel 125000 0 200000 0 (?r, d)))" for d
    by (simp add: fsm_channel_RUNNING sampling_step_def read_input_def PINB2_def
        SAMPLE_JIFFIES_def TOGGLE_COUNT_THRESHOLD_def Let_def)
  have ut: "under_threshold (channels (fst (fsm_for 125000 200000 (\<lambda>_. 0) 0 (?run, 1))) 0)"
    using fsm_for_channel [OF k, of 1 1 125000 200000 "\<lambda>_. 0" ?run] c2 by simp
  note t = output_follows_state [OF k, where inst = ?spin and ddrb = 1 and jps = 125000
      and rounds = "[(20, \<lambda>_. 0)]" and inst' = ?run and ddrb' = 1 and curr_time = 200000
      and pins = "\<lambda>_. 0" and u = False]
  from t s0 low st have a: "driven_low 0 (snd (fsm_steps 125000 [(20, \<lambda>_. 0)] (?spin, 1)))"
    by simp
  from t s0 low r0 ut have b: "floating_high 0 (snd (fsm_for 125000 200000 (\<lambda>_. 0) 0 (?run, 1)))"
    by simp
  from a have c: "driven_low 0 (snd (fsm_for 125000 20 (\<lambda>_. 0) 0 (?spin, 1)))"
    by simp
  note t2 = output_follows_state [OF k, where inst = ?spin and ddrb = 1 and jps = 125000
      and rounds = "[(20, \<lambda>_. 0)]" and inst' = ?spin and ddrb' = 1 and curr_time = 20
      and pins = "\<lambda>_. 0" and u = False]
  from t2 s0 low n0 c
  have e: "driven_low 0 (snd (fsm_for 125000 20 (\<lambda>_. 0) 0
     (?spin\<lparr>channels := (\<lambda>_. ?s)(0 := \<lparr>state = FSM_STATE_SPIN_UP, time = 10,
      prev_sample_time = 10, under_threshold = False, prev_input_state = False,
      toggles = 0\<rparr>)\<rparr>, 1)))"
    by simp
  from k s0 low st a r0 ut b n0 c e show ?thesis
    by simp
qed

section \<open>The order of the states\<close>

lemma fsm_for_state_step:
  "state (channels (fst (fsm_for jps t pins 0 (inst, d))) i) = state (channels inst i) \<or>
   (state (channels (fst (fsm_for jps t pins 0 (inst, d))) i) = Suc (state (channels inst i)) \<and>
    state (channels inst i) < FSM_STATE_RUNNING)"
proof (cases "i < NUM_CHANNELS")
  case True
  from fsm_for_channel [OF True, of d d jps t pins inst]
    fsm_channel_state_step [of jps i t "pins i" "channels inst i" d]
  show ?thesis by simp
next
  case False
  then show ?thesis by (simp add: fsm_for_other)
qed

lemma fsm_steps_state_mono:
  "state (channels inst i) \<le> state (channels (fst (fsm_steps jps xs (inst, d))) i) \<and>
   (FSM_STATE_RUNNING \<le> state (channels inst i) \<longrightarrow>
      state (channels (fst (fsm_steps jps xs (inst, d))) i) = state (channels inst i))"
proof (induction xs arbitrary: inst d)
  case Nil
  then show ?case by simp
next
  case (Cons x xs)
  obtain t pins where x: "x = (t, pins)" by (cases x)
  obtain inst1 d1 where f: "fsm_for jps t pins 0 (inst, d) = (inst1, d1)"
    by (cases "fsm_for jps t pins 0 (inst, d)")
  from fsm_for_state_step [of jps t pins inst d i] f
  have "state (channels inst1 i) = state (channels inst i) \<or>
        (state (channels inst1 i) = Suc (state (channels inst i)) \<and>
         state (channels inst i) < FSM_STATE_RUNNING)"
    by simp
  with Cons.IH [of inst1 d1] show ?case
    by (auto simp add: x f)
qed

text \<open>
  C9. Along any run the state of a channel never decreases, a round either keeps it or
  moves it to the next enumerator, and a channel that is in \<open>FSM_STATE_RUNNING\<close>
  stays there.
\<close>

theorem state_order_forward:
  "state (channels (fst (fsm_steps jps xs (inst, ddrb))) i)
     \<le> state (channels (fst (fsm_steps jps (xs @ ys) (inst, ddrb))) i) \<and>
   (state (channels (fst (fsm_steps jps (xs @ [r]) (inst, ddrb))) i) =
      state (channels (fst (fsm_steps jps xs (inst, ddrb))) i) \<or>
    state (channels (fst (fsm_steps jps (xs @ [r]) (inst, ddrb))) i) =
      Suc (state (channels (fst (fsm_steps jps xs (inst, ddrb))) i)) \<and>
    state (channels (fst (fsm_steps jps xs (inst, ddrb))) i) < FSM_STATE_RUNNING) \<and>
   (state (channels (fst (fsm_steps jps xs (inst, ddrb))) i) = FSM_STATE_RUNNING \<longrightarrow>
    state (channels (fst (fsm_steps jps (xs @ ys) (inst, ddrb))) i) = FSM_STATE_RUNNING)"
proof -
  obtain inst1 d1 where a: "fsm_steps jps xs (inst, ddrb) = (inst1, d1)"
    by (cases "fsm_steps jps xs (inst, ddrb)")
  obtain t pins where r: "r = (t, pins)" by (cases r)
  from fsm_steps_state_mono [of inst1 i jps ys d1] fsm_for_state_step [of jps t pins inst1 d1 i]
  show ?thesis
    by (simp add: fsm_steps_append a r)
qed

theorem state_order_forward_witness:
  "let run = \<lparr>channels = (\<lambda>_. \<lparr>state = FSM_STATE_RUNNING, time = 10, prev_sample_time = 10,
                   under_threshold = False, prev_input_state = False, toggles = 0\<rparr>)\<rparr>
   in state (channels (fst (fsm_steps 125000 [] (run, 1))) 0) = FSM_STATE_RUNNING \<and>
      state (channels (fst (fsm_steps 125000 ([] @ [(200000, \<lambda>_. 0), (200001, \<lambda>_. 4)]) (run, 1))) 0)
        = FSM_STATE_RUNNING"
  using state_order_forward [of 125000 "[]"
      "\<lparr>channels = (\<lambda>_. \<lparr>state = FSM_STATE_RUNNING, time = 10, prev_sample_time = 10,
                   under_threshold = False, prev_input_state = False, toggles = 0\<rparr>)\<rparr>"
      1 0 "[(200000, \<lambda>_. 0), (200001, \<lambda>_. 4)]"]
  by (simp add: Let_def)

section \<open>The sample window\<close>

lemma fsm_channel_under_threshold_other:
  "state ch \<noteq> FSM_STATE_SPIN_UP \<Longrightarrow> state ch \<noteq> FSM_STATE_RUNNING \<Longrightarrow>
   under_threshold (fst (fsm_channel jps i t p (ch, d))) = under_threshold ch"
  using fsm_channel_cases [of ch]
  by (elim disjE)
     (simp_all add: fsm_channel_INIT fsm_channel_POWER_ON fsm_channel_default)

lemma sampling_step_boundary:
  "t - prev_sample_time ch > SAMPLE_JIFFIES jps \<Longrightarrow>
   sampling_step jps t (read_input (of_nat i) p) ch =
     ch\<lparr>under_threshold := (toggles_counted i p ch < TOGGLE_COUNT_THRESHOLD),
        toggles := 0, prev_sample_time := t, prev_input_state := read_input (of_nat i) p\<rparr>"
  by (simp add: sampling_step_def toggles_counted_def Let_def)

lemma sampling_step_mid_window:
  "\<not> t - prev_sample_time ch > SAMPLE_JIFFIES jps \<Longrightarrow>
   sampling_step jps t (read_input (of_nat i) p) ch =
     ch\<lparr>toggles := toggles_counted i p ch, prev_input_state := read_input (of_nat i) p\<rparr>"
  by (simp add: sampling_step_def toggles_counted_def Let_def)

lemma fsm_channel_sampled:
  "state ch = FSM_STATE_SPIN_UP \<or> state ch = FSM_STATE_RUNNING \<Longrightarrow>
   (fst (fsm_channel jps i t p (ch, d)))\<lparr>state := s\<rparr> =
   (sampling_step jps t (read_input (of_nat i) p) ch)\<lparr>state := s\<rparr>"
  by (auto simp add: fsm_channel_SPIN_UP fsm_channel_RUNNING Let_def)

text \<open>
  C5. A step that finds the window condition true (in \<open>FSM_STATE_SPIN_UP\<close> or
  \<open>FSM_STATE_RUNNING\<close>, with more than \<open>SAMPLE_JIFFIES\<close> since \<open>prev_sample_time\<close>) sets
  \<open>under_threshold\<close> to whether the toggles counted are below \<open>TOGGLE_COUNT_THRESHOLD\<close>,
  which is 40, sets \<open>toggles\<close> to zero and \<open>prev_sample_time\<close> to the time of the step:
  52 toggles give false and 10 give true. Every other step leaves \<open>under_threshold\<close>
  as it was.
\<close>

theorem window_boundary_latch:
  "(window_boundary jps curr_time channel \<longrightarrow>
      under_threshold (fst (fsm_channel jps i curr_time pinb (channel, ddrb))) =
        (toggles_counted i pinb channel < TOGGLE_COUNT_THRESHOLD) \<and>
      toggles (fst (fsm_channel jps i curr_time pinb (channel, ddrb))) = 0 \<and>
      prev_sample_time (fst (fsm_channel jps i curr_time pinb (channel, ddrb))) = curr_time) \<and>
   TOGGLE_COUNT_THRESHOLD = 40 \<and>
   (window_boundary jps curr_time channel \<and> toggles_counted i pinb channel = 52 \<longrightarrow>
      \<not> under_threshold (fst (fsm_channel jps i curr_time pinb (channel, ddrb)))) \<and>
   (window_boundary jps curr_time channel \<and> toggles_counted i pinb channel = 10 \<longrightarrow>
      under_threshold (fst (fsm_channel jps i curr_time pinb (channel, ddrb)))) \<and>
   (\<not> window_boundary jps curr_time channel \<longrightarrow>
      under_threshold (fst (fsm_channel jps i curr_time pinb (channel, ddrb))) =
        under_threshold channel)"
proof -
  have a: "under_threshold (fst (fsm_channel jps i curr_time pinb (channel, ddrb))) =
             (toggles_counted i pinb channel < TOGGLE_COUNT_THRESHOLD) \<and>
           toggles (fst (fsm_channel jps i curr_time pinb (channel, ddrb))) = 0 \<and>
           prev_sample_time (fst (fsm_channel jps i curr_time pinb (channel, ddrb))) = curr_time"
    if w: "window_boundary jps curr_time channel"
  proof -
    from w have st: "state channel = FSM_STATE_SPIN_UP \<or> state channel = FSM_STATE_RUNNING"
      and el: "curr_time - prev_sample_time channel > SAMPLE_JIFFIES jps"
      by (simp_all add: window_boundary_def)
    from st show ?thesis
      by (auto simp add: fsm_channel_SPIN_UP fsm_channel_RUNNING Let_def
          sampling_step_boundary [OF el])
  qed
  have b: "under_threshold (fst (fsm_channel jps i curr_time pinb (channel, ddrb))) =
             under_threshold channel"
    if w: "\<not> window_boundary jps curr_time channel"
  proof (cases "state channel = FSM_STATE_SPIN_UP \<or> state channel = FSM_STATE_RUNNING")
    case True
    with w have el: "\<not> curr_time - prev_sample_time channel > SAMPLE_JIFFIES jps"
      by (auto simp add: window_boundary_def)
    from True show ?thesis
      by (auto simp add: fsm_channel_SPIN_UP fsm_channel_RUNNING Let_def
          sampling_step_mid_window [OF el])
  next
    case False
    then show ?thesis by (simp add: fsm_channel_under_threshold_other)
  qed
  from a b show ?thesis by (auto simp add: TOGGLE_COUNT_THRESHOLD_def)
qed

theorem window_boundary_latch_witness:
  "window_boundary 125000 126001
     \<lparr>state = FSM_STATE_RUNNING, time = 0, prev_sample_time = 1000,
      under_threshold = True, prev_input_state = False, toggles = 51\<rparr> \<and>
   toggles_counted 0 4
     \<lparr>state = FSM_STATE_RUNNING, time = 0, prev_sample_time = 1000,
      under_threshold = True, prev_input_state = False, toggles = 51\<rparr> = 52 \<and>
   \<not> under_threshold (fst (fsm_channel 125000 0 126001 4
     (\<lparr>state = FSM_STATE_RUNNING, time = 0, prev_sample_time = 1000,
       under_threshold = True, prev_input_state = False, toggles = 51\<rparr>, 0))) \<and>
   window_boundary 125000 126001
     \<lparr>state = FSM_STATE_SPIN_UP, time = 0, prev_sample_time = 1000,
      under_threshold = False, prev_input_state = True, toggles = 10\<rparr> \<and>
   toggles_counted 0 4
     \<lparr>state = FSM_STATE_SPIN_UP, time = 0, prev_sample_time = 1000,
      under_threshold = False, prev_input_state = True, toggles = 10\<rparr> = 10 \<and>
   under_threshold (fst (fsm_channel 125000 0 126001 4
     (\<lparr>state = FSM_STATE_SPIN_UP, time = 0, prev_sample_time = 1000,
       under_threshold = False, prev_input_state = True, toggles = 10\<rparr>, 0))) \<and>
   \<not> window_boundary 125000 126000
     \<lparr>state = FSM_STATE_RUNNING, time = 0, prev_sample_time = 1000,
      under_threshold = True, prev_input_state = False, toggles = 51\<rparr> \<and>
   under_threshold (fst (fsm_channel 125000 0 126000 4
     (\<lparr>state = FSM_STATE_RUNNING, time = 0, prev_sample_time = 1000,
       under_threshold = True, prev_input_state = False, toggles = 51\<rparr>, 0)))"
proof -
  let ?c52 = "\<lparr>state = FSM_STATE_RUNNING, time = 0, prev_sample_time = 1000,
      under_threshold = True, prev_input_state = False, toggles = 51\<rparr>"
  let ?c10 = "\<lparr>state = FSM_STATE_SPIN_UP, time = 0, prev_sample_time = 1000,
      under_threshold = False, prev_input_state = True, toggles = 10\<rparr>"
  have w52: "window_boundary 125000 126001 ?c52"
    by (simp add: window_boundary_def SAMPLE_JIFFIES_def)
  have n52: "toggles_counted 0 4 ?c52 = 52"
    by (simp add: toggles_counted_def read_input_def PINB2_def)
  have w10: "window_boundary 125000 126001 ?c10"
    by (simp add: window_boundary_def SAMPLE_JIFFIES_def)
  have n10: "toggles_counted 0 4 ?c10 = 10"
    by (simp add: toggles_counted_def read_input_def PINB2_def)
  have mid: "\<not> window_boundary 125000 126000 ?c52"
    by (simp add: window_boundary_def SAMPLE_JIFFIES_def)
  from window_boundary_latch [of 125000 126001 ?c52 0 4 0] w52 n52
  have r52: "\<not> under_threshold (fst (fsm_channel 125000 0 126001 4 (?c52, 0)))"
    by blast
  from window_boundary_latch [of 125000 126001 ?c10 0 4 0] w10 n10
  have r10: "under_threshold (fst (fsm_channel 125000 0 126001 4 (?c10, 0)))"
    by blast
  from window_boundary_latch [of 125000 126000 ?c52 0 4 0] mid
  have rmid: "under_threshold (fst (fsm_channel 125000 0 126000 4 (?c52, 0)))"
    by simp
  from w52 n52 r52 w10 n10 r10 mid rmid show ?thesis
    by blast
qed

section \<open>Window continuity\<close>

lemma fsm_channel_sampling_state:
  "state ch = FSM_STATE_SPIN_UP \<or> state ch = FSM_STATE_RUNNING \<Longrightarrow>
   state (fst (fsm_channel jps i t p (ch, d))) = FSM_STATE_SPIN_UP \<or>
   state (fst (fsm_channel jps i t p (ch, d))) = FSM_STATE_RUNNING"
  by (auto simp add: fsm_channel_SPIN_UP fsm_channel_RUNNING Let_def)

lemma sampling_step_state_update:
  "sampling_step jps t l (ch\<lparr>state := s\<rparr>) = (sampling_step jps t l ch)\<lparr>state := s\<rparr>"
  by (simp add: sampling_step_def Let_def)

lemma sampling_steps_state_update:
  "sampling_steps jps i xs (ch\<lparr>state := s\<rparr>) = (sampling_steps jps i xs ch)\<lparr>state := s\<rparr>"
  by (induction jps i xs ch rule: sampling_steps.induct)
     (simp_all add: sampling_step_state_update)

lemma channel_steps_sampled:
  "state ch = FSM_STATE_SPIN_UP \<or> state ch = FSM_STATE_RUNNING \<Longrightarrow>
   (fst (channel_steps jps i xs (ch, d)))\<lparr>state := s\<rparr> = (sampling_steps jps i xs ch)\<lparr>state := s\<rparr>"
proof (induction xs arbitrary: ch d)
  case Nil
  then show ?case by simp
next
  case (Cons x xs)
  obtain t p where x: "x = (t, p)" by (cases x)
  obtain c1 d1 where f: "fsm_channel jps i t p (ch, d) = (c1, d1)"
    by (cases "fsm_channel jps i t p (ch, d)")
  from fsm_channel_sampling_state [OF Cons.prems, where jps = jps and i = i and t = t and p = p and d = d] f
  have st: "state c1 = FSM_STATE_SPIN_UP \<or> state c1 = FSM_STATE_RUNNING" by simp
  from fsm_channel_sampled [OF Cons.prems, where jps = jps and i = i and t = t and p = p and d = d and s = "state c1"] f
  have c1: "c1 = (sampling_step jps t (read_input (of_nat i) p) ch)\<lparr>state := state c1\<rparr>"
    by simp
  have "(fst (channel_steps jps i (x # xs) (ch, d)))\<lparr>state := s\<rparr> =
        (sampling_steps jps i xs c1)\<lparr>state := s\<rparr>"
    using Cons.IH [OF st, where d = d1] by (simp add: x f)
  also have "\<dots> =
      (sampling_steps jps i xs (sampling_step jps t (read_input (of_nat i) p) ch))\<lparr>state := s\<rparr>"
    by (subst c1) (simp add: sampling_steps_state_update)
  finally show ?case by (simp add: x)
qed

text \<open>
  C7. A step of \<open>FSM_STATE_SPIN_UP\<close> yields the channel the spec's sampling step yields,
  but for the state, whether it moves to \<open>FSM_STATE_RUNNING\<close> or not, and a step of
  \<open>FSM_STATE_RUNNING\<close> yields just that channel. So a step that moves to
  \<open>FSM_STATE_RUNNING\<close> inside a window leaves \<open>prev_sample_time\<close> and
  \<open>under_threshold\<close> as they were and \<open>toggles\<close> with the count of the window so far;
  and over any run of the loop that begins in either state, the sampling fields are
  those of the sampling step repeated, wherever the transition falls.
\<close>

theorem window_continuity:
  "(state channel = FSM_STATE_SPIN_UP \<longrightarrow>
      fst (fsm_channel jps i curr_time pinb (channel, ddrb)) =
        (sampling_step jps curr_time (read_input (of_nat i) pinb) channel)
          \<lparr>state := (if curr_time - time channel > SPIN_UP_JIFFIES jps
                      then FSM_STATE_RUNNING else FSM_STATE_SPIN_UP)\<rparr>) \<and>
   (state channel = FSM_STATE_RUNNING \<longrightarrow>
      fst (fsm_channel jps i curr_time pinb (channel, ddrb)) =
        sampling_step jps curr_time (read_input (of_nat i) pinb) channel) \<and>
   (state channel = FSM_STATE_SPIN_UP \<and> curr_time - time channel > SPIN_UP_JIFFIES jps \<and>
    \<not> window_boundary jps curr_time channel \<longrightarrow>
      state (fst (fsm_channel jps i curr_time pinb (channel, ddrb))) = FSM_STATE_RUNNING \<and>
      toggles (fst (fsm_channel jps i curr_time pinb (channel, ddrb))) =
        toggles_counted i pinb channel \<and>
      prev_sample_time (fst (fsm_channel jps i curr_time pinb (channel, ddrb))) =
        prev_sample_time channel \<and>
      under_threshold (fst (fsm_channel jps i curr_time pinb (channel, ddrb))) =
        under_threshold channel) \<and>
   (k < NUM_CHANNELS \<and>
    (state (channels inst k) = FSM_STATE_SPIN_UP \<or> state (channels inst k) = FSM_STATE_RUNNING) \<longrightarrow>
      channels (fst (fsm_steps jps rounds (inst, ddrb))) k =
        (sampling_steps jps k (rounds_of k rounds) (channels inst k))
          \<lparr>state := state (channels (fst (fsm_steps jps rounds (inst, ddrb))) k)\<rparr>)"
proof (intro conjI impI)
  assume "state channel = FSM_STATE_SPIN_UP"
  then show "fst (fsm_channel jps i curr_time pinb (channel, ddrb)) =
        (sampling_step jps curr_time (read_input (of_nat i) pinb) channel)
          \<lparr>state := (if curr_time - time channel > SPIN_UP_JIFFIES jps
                      then FSM_STATE_RUNNING else FSM_STATE_SPIN_UP)\<rparr>"
    by (simp add: fsm_channel_SPIN_UP)
next
  assume r: "state channel = FSM_STATE_RUNNING"
  then show "fst (fsm_channel jps i curr_time pinb (channel, ddrb)) =
        sampling_step jps curr_time (read_input (of_nat i) pinb) channel"
    by (simp add: fsm_channel_RUNNING Let_def)
next
  assume a: "state channel = FSM_STATE_SPIN_UP \<and> curr_time - time channel > SPIN_UP_JIFFIES jps \<and>
    \<not> window_boundary jps curr_time channel"
  then have el: "\<not> curr_time - prev_sample_time channel > SAMPLE_JIFFIES jps"
    by (auto simp add: window_boundary_def)
  from a show "state (fst (fsm_channel jps i curr_time pinb (channel, ddrb))) = FSM_STATE_RUNNING"
    and "toggles (fst (fsm_channel jps i curr_time pinb (channel, ddrb))) =
        toggles_counted i pinb channel"
    and "prev_sample_time (fst (fsm_channel jps i curr_time pinb (channel, ddrb))) =
        prev_sample_time channel"
    and "under_threshold (fst (fsm_channel jps i curr_time pinb (channel, ddrb))) =
        under_threshold channel"
    by (simp_all add: fsm_channel_SPIN_UP sampling_step_mid_window [OF el])
next
  assume a: "k < NUM_CHANNELS \<and>
    (state (channels inst k) = FSM_STATE_SPIN_UP \<or> state (channels inst k) = FSM_STATE_RUNNING)"
  then have k: "k < NUM_CHANNELS"
    and st: "state (channels inst k) = FSM_STATE_SPIN_UP \<or> state (channels inst k) = FSM_STATE_RUNNING"
    by simp_all
  from fsm_steps_channel [OF k, of ddrb ddrb jps rounds inst]
  have p: "channels (fst (fsm_steps jps rounds (inst, ddrb))) k =
           fst (channel_steps jps k (rounds_of k rounds) (channels inst k, ddrb))"
    by simp
  from channel_steps_sampled [OF st, where jps = jps and i = k and xs = "rounds_of k rounds"
      and d = ddrb and s = "state (channels (fst (fsm_steps jps rounds (inst, ddrb))) k)"]
  show "channels (fst (fsm_steps jps rounds (inst, ddrb))) k =
        (sampling_steps jps k (rounds_of k rounds) (channels inst k))
          \<lparr>state := state (channels (fst (fsm_steps jps rounds (inst, ddrb))) k)\<rparr>"
    by (simp add: p)
qed

theorem window_continuity_witness:
  "state \<lparr>state = FSM_STATE_SPIN_UP, time = 0, prev_sample_time = 600000,
      under_threshold = True, prev_input_state = False, toggles = 7\<rparr> = FSM_STATE_SPIN_UP \<and>
   (625001 :: jiffies_t) - time \<lparr>state = FSM_STATE_SPIN_UP, time = 0, prev_sample_time = 600000,
      under_threshold = True, prev_input_state = False, toggles = 7\<rparr> > SPIN_UP_JIFFIES 125000 \<and>
   \<not> window_boundary 125000 625001 \<lparr>state = FSM_STATE_SPIN_UP, time = 0,
      prev_sample_time = 600000, under_threshold = True, prev_input_state = False, toggles = 7\<rparr> \<and>
   fst (fsm_channel 125000 0 625001 4
     (\<lparr>state = FSM_STATE_SPIN_UP, time = 0, prev_sample_time = 600000,
       under_threshold = True, prev_input_state = False, toggles = 7\<rparr>, 1)) =
     \<lparr>state = FSM_STATE_RUNNING, time = 0, prev_sample_time = 600000,
      under_threshold = True, prev_input_state = True, toggles = 8\<rparr> \<and>
   (0::nat) < NUM_CHANNELS \<and>
   toggles (channels (fst (fsm_steps 125000 [(625001, \<lambda>_. 4), (725002, \<lambda>_. 0)]
     (\<lparr>channels = (\<lambda>_. \<lparr>state = FSM_STATE_SPIN_UP, time = 0, prev_sample_time = 600000,
        under_threshold = False, prev_input_state = False, toggles = 7\<rparr>)\<rparr>, 1))) 0) = 0 \<and>
   prev_sample_time (channels (fst (fsm_steps 125000 [(625001, \<lambda>_. 4), (725002, \<lambda>_. 0)]
     (\<lparr>channels = (\<lambda>_. \<lparr>state = FSM_STATE_SPIN_UP, time = 0, prev_sample_time = 600000,
        under_threshold = False, prev_input_state = False, toggles = 7\<rparr>)\<rparr>, 1))) 0) = 725002 \<and>
   under_threshold (channels (fst (fsm_steps 125000 [(625001, \<lambda>_. 4), (725002, \<lambda>_. 0)]
     (\<lparr>channels = (\<lambda>_. \<lparr>state = FSM_STATE_SPIN_UP, time = 0, prev_sample_time = 600000,
        under_threshold = False, prev_input_state = False, toggles = 7\<rparr>)\<rparr>, 1))) 0)"
proof -
  let ?c = "\<lparr>state = FSM_STATE_SPIN_UP, time = 0, prev_sample_time = 600000,
      under_threshold = True, prev_input_state = False, toggles = 7\<rparr>"
  let ?d = "\<lparr>state = FSM_STATE_SPIN_UP, time = 0, prev_sample_time = 600000,
      under_threshold = False, prev_input_state = False, toggles = 7\<rparr>"
  let ?inst = "\<lparr>channels = (\<lambda>_. ?d)\<rparr>"
  let ?rounds = "[(625001 :: jiffies_t, \<lambda>_ :: nat. 4 :: 8 word), (725002, \<lambda>_. 0)]"
  let ?X = "channels (fst (fsm_steps 125000 ?rounds (?inst, 1))) 0"
  have h1: "state ?c = FSM_STATE_SPIN_UP" by simp
  have h2: "(625001 :: jiffies_t) - time ?c > SPIN_UP_JIFFIES 125000"
    by (simp add: SPIN_UP_JIFFIES_def SAMPLE_JIFFIES_def)
  have h3: "\<not> window_boundary 125000 625001 ?c"
    by (simp add: window_boundary_def SAMPLE_JIFFIES_def)
  have s: "sampling_step 125000 625001 (read_input 0 4) ?c =
           ?c\<lparr>prev_input_state := True, toggles := 8\<rparr>"
    by (simp add: sampling_step_def read_input_def PINB2_def SAMPLE_JIFFIES_def)
  note wc = window_continuity [where channel = ?c and jps = 125000 and i = 0
      and curr_time = 625001 and pinb = 4 and ddrb = 1 and k = 0 and inst = ?inst
      and rounds = ?rounds]
  from wc [THEN conjunct1] h1 h2
  have r: "fst (fsm_channel 125000 0 625001 4 (?c, 1)) =
           \<lparr>state = FSM_STATE_RUNNING, time = 0, prev_sample_time = 600000,
            under_threshold = True, prev_input_state = True, toggles = 8\<rparr>"
    by (simp add: s)
  have k: "(0::nat) < NUM_CHANNELS" by (simp add: NUM_CHANNELS_def)
  have e: "sampling_steps 125000 0 (rounds_of 0 ?rounds) ?d =
           ?d\<lparr>prev_input_state := False, toggles := 0, prev_sample_time := 725002,
               under_threshold := True\<rparr>"
    by (simp add: rounds_of_def sampling_step_def read_input_def PINB2_def SAMPLE_JIFFIES_def
        TOGGLE_COUNT_THRESHOLD_def)
  from wc [THEN conjunct2, THEN conjunct2, THEN conjunct2] k
  have "?X = (sampling_steps 125000 0 (rounds_of 0 ?rounds) ?d)\<lparr>state := state ?X\<rparr>"
    by simp
  then have x: "?X = ?d\<lparr>prev_input_state := False, toggles := 0, prev_sample_time := 725002,
               under_threshold := True, state := state ?X\<rparr>"
    by (simp only: e)
  have "toggles ?X = 0" "prev_sample_time ?X = 725002" "under_threshold ?X"
    by (subst x, simp)+
  with h1 h2 h3 r k show ?thesis by blast
qed

section \<open>Elapsed time\<close>

lemma unat_of_nat_diff:
  assumes "earlier \<le> later" and "later - earlier < 2 ^ 32"
  shows "unat ((of_nat later :: jiffies_t) - of_nat earlier) = later - earlier"
proof -
  have "(of_nat later :: jiffies_t) - of_nat earlier = of_nat (later - earlier)"
    using assms(1) by (simp add: of_nat_diff)
  moreover have "unat (of_nat (later - earlier) :: jiffies_t) = later - earlier"
    using assms(2) by (simp add: unat_of_nat take_bit_nat_eq_self)
  ultimately show ?thesis by simp
qed

text \<open>
  C3. For two instants whose true distance is below half the range of \<open>jiffies_t\<close>,
  the wrapping difference of their tick values is that distance, also when the tick
  counter wrapped in between; and each comparison of elapsed time in \<open>fsm_run\<close> (the
  exit of \<open>FSM_STATE_POWER_ON\<close>, the exit of \<open>FSM_STATE_SPIN_UP\<close>, the window test of
  \<open>FSM_STATE_SPIN_UP\<close> and \<open>FSM_STATE_RUNNING\<close>) decides as the true distance does.
\<close>

theorem elapsed_wraparound_safe:
  assumes "earlier \<le> later" and "later - earlier < 2 ^ 31"
  shows "unat ((of_nat later :: jiffies_t) - of_nat earlier) = later - earlier \<and>
    (state channel = FSM_STATE_POWER_ON \<and> time channel = of_nat earlier \<longrightarrow>
       (state (fst (fsm_channel jps i (of_nat later) pinb (channel, ddrb))) = FSM_STATE_SPIN_UP)
         = (unat POWER_ON_JIFFIES < later - earlier)) \<and>
    (state channel = FSM_STATE_SPIN_UP \<and> time channel = of_nat earlier \<longrightarrow>
       (state (fst (fsm_channel jps i (of_nat later) pinb (channel, ddrb))) = FSM_STATE_RUNNING)
         = (unat (SPIN_UP_JIFFIES jps) < later - earlier)) \<and>
    ((state channel = FSM_STATE_SPIN_UP \<or> state channel = FSM_STATE_RUNNING) \<and>
     prev_sample_time channel = of_nat earlier \<longrightarrow>
       prev_sample_time (fst (fsm_channel jps i (of_nat later) pinb (channel, ddrb))) =
         of_nat (if unat (SAMPLE_JIFFIES jps) < later - earlier then later else earlier))"
proof -
  from assms have d: "unat ((of_nat later :: jiffies_t) - of_nat earlier) = later - earlier"
    by (intro unat_of_nat_diff) simp_all
  have cmp: "(x < (of_nat later :: jiffies_t) - of_nat earlier) = (unat x < later - earlier)" for x
    by (simp add: word_less_nat_alt d)
  show ?thesis
  proof (intro conjI impI)
    show "unat ((of_nat later :: jiffies_t) - of_nat earlier) = later - earlier" by (rule d)
  next
    assume "state channel = FSM_STATE_POWER_ON \<and> time channel = of_nat earlier"
    then show "(state (fst (fsm_channel jps i (of_nat later) pinb (channel, ddrb))) = FSM_STATE_SPIN_UP)
         = (unat POWER_ON_JIFFIES < later - earlier)"
      by (simp add: fsm_channel_POWER_ON cmp fsm_state_defs)
  next
    assume "state channel = FSM_STATE_SPIN_UP \<and> time channel = of_nat earlier"
    then show "(state (fst (fsm_channel jps i (of_nat later) pinb (channel, ddrb))) = FSM_STATE_RUNNING)
         = (unat (SPIN_UP_JIFFIES jps) < later - earlier)"
      by (simp add: fsm_channel_SPIN_UP cmp fsm_state_defs)
  next
    assume "(state channel = FSM_STATE_SPIN_UP \<or> state channel = FSM_STATE_RUNNING) \<and>
     prev_sample_time channel = of_nat earlier"
    then show "prev_sample_time (fst (fsm_channel jps i (of_nat later) pinb (channel, ddrb))) =
         of_nat (if unat (SAMPLE_JIFFIES jps) < later - earlier then later else earlier)"
      by (auto simp add: fsm_channel_SPIN_UP fsm_channel_RUNNING Let_def sampling_step_def cmp)
  qed
qed

theorem elapsed_wraparound_safe_witness:
  "(4294967290 :: nat) \<le> 4294967300 \<and> (4294967300 :: nat) - 4294967290 < 2 ^ 31 \<and>
   (of_nat 4294967300 :: jiffies_t) = 4 \<and> (of_nat 4294967290 :: jiffies_t) = 4294967290 \<and>
   unat ((4 :: jiffies_t) - 4294967290) = 10 \<and>
   state (fst (fsm_channel 2 0 4 0
     (\<lparr>state = FSM_STATE_POWER_ON, time = 4294967290, prev_sample_time = 0,
       under_threshold = False, prev_input_state = False, toggles = 0\<rparr>, 0))) = FSM_STATE_SPIN_UP \<and>
   state (fst (fsm_channel 2 0 4 0
     (\<lparr>state = FSM_STATE_SPIN_UP, time = 4294967290, prev_sample_time = 4294967290,
       under_threshold = False, prev_input_state = False, toggles = 0\<rparr>, 0))) \<noteq> FSM_STATE_RUNNING \<and>
   prev_sample_time (fst (fsm_channel 2 0 4 0
     (\<lparr>state = FSM_STATE_SPIN_UP, time = 4294967290, prev_sample_time = 4294967290,
       under_threshold = False, prev_input_state = False, toggles = 0\<rparr>, 0))) = 4"
proof -
  let ?p = "\<lparr>state = FSM_STATE_POWER_ON, time = 4294967290, prev_sample_time = 0,
       under_threshold = False, prev_input_state = False, toggles = 0\<rparr>"
  let ?s = "\<lparr>state = FSM_STATE_SPIN_UP, time = 4294967290, prev_sample_time = 4294967290,
       under_threshold = False, prev_input_state = False, toggles = 0\<rparr>"
  have a: "(4294967290 :: nat) \<le> 4294967300" by simp
  have b: "(4294967300 :: nat) - 4294967290 < 2 ^ 31" by simp
  have l: "(of_nat 4294967300 :: jiffies_t) = 4" by simp
  have e: "(of_nat 4294967290 :: jiffies_t) = 4294967290" by simp
  have n: "(4294967300 :: jiffies_t) = 4" by simp
  have v: "unat POWER_ON_JIFFIES = 0" "unat (SPIN_UP_JIFFIES 2) = 10" "unat (SAMPLE_JIFFIES 2) = 2"
    by (simp_all add: POWER_ON_JIFFIES_def SPIN_UP_JIFFIES_def SAMPLE_JIFFIES_def)
  note w = elapsed_wraparound_safe [OF a b, where jps = 2 and i = 0 and pinb = 0 and ddrb = 0]
  from w [where channel = ?p] have "unat ((4 :: jiffies_t) - 4294967290) = 10"
    by (simp add: n)
  moreover from w [where channel = ?p, THEN conjunct2, THEN conjunct1]
  have "state (fst (fsm_channel 2 0 4 0 (?p, 0))) = FSM_STATE_SPIN_UP"
    by (simp add: v n)
  moreover from w [where channel = ?s, THEN conjunct2, THEN conjunct2, THEN conjunct1]
  have "state (fst (fsm_channel 2 0 4 0 (?s, 0))) \<noteq> FSM_STATE_RUNNING"
    by (simp add: v n)
  moreover from w [where channel = ?s, THEN conjunct2, THEN conjunct2, THEN conjunct2]
  have "prev_sample_time (fst (fsm_channel 2 0 4 0 (?s, 0))) = 4"
    by (simp add: v n)
  ultimately show ?thesis using a b l e by blast
qed

section \<open>The sequence of states\<close>

lemma channel_steps_power_on_wait:
  "state ch = FSM_STATE_POWER_ON \<Longrightarrow> \<forall>r\<in>set ps. fst r = time ch \<Longrightarrow>
   channel_steps jps i ps (ch, d) = (ch, d)"
proof (induction ps)
  case Nil
  then show ?case by simp
next
  case (Cons r ps)
  obtain t p where r: "r = (t, p)" by (cases r)
  with Cons.prems have "t = time ch" by simp
  with Cons show ?case
    by (simp add: r fsm_channel_POWER_ON POWER_ON_JIFFIES_def)
qed

lemma channel_steps_spin_up_wait:
  "state ch = FSM_STATE_SPIN_UP \<Longrightarrow> \<forall>r\<in>set qs. fst r - time ch \<le> SPIN_UP_JIFFIES jps \<Longrightarrow>
   state (fst (channel_steps jps i qs (ch, d))) = FSM_STATE_SPIN_UP \<and>
   time (fst (channel_steps jps i qs (ch, d))) = time ch"
proof (induction qs arbitrary: ch d)
  case Nil
  then show ?case by simp
next
  case (Cons r qs)
  obtain t p where r: "r = (t, p)" by (cases r)
  with Cons.prems have le: "\<not> SPIN_UP_JIFFIES jps < t - time ch" by (simp add: not_less)
  let ?c = "(sampling_step jps t (read_input (of_nat i) p) ch)\<lparr>state := FSM_STATE_SPIN_UP\<rparr>"
  have f: "fsm_channel jps i t p (ch, d) = (?c, d)"
    using Cons.prems(1) le by (simp add: fsm_channel_SPIN_UP)
  have "state ?c = FSM_STATE_SPIN_UP" "\<forall>r\<in>set qs. fst r - time ?c \<le> SPIN_UP_JIFFIES jps"
    using Cons.prems(2) by simp_all
  from Cons.IH [OF this, of d] show ?case by (simp add: r f)
qed

lemma channel_steps_sequence:
  assumes "state ch = FSM_STATE_INIT"
    and "\<forall>r\<in>set ps. fst r = 0" and "t1 \<noteq> 0"
    and "\<forall>r\<in>set qs. fst r - t1 \<le> SPIN_UP_JIFFIES jps" and "SPIN_UP_JIFFIES jps < t2 - t1"
  shows "state (fst (channel_steps jps i [(0, p0)] (ch, d))) = FSM_STATE_POWER_ON"
    and "state (fst (channel_steps jps i ((0, p0) # ps) (ch, d))) = FSM_STATE_POWER_ON"
    and "state (fst (channel_steps jps i ((0, p0) # ps @ [(t1, p1)]) (ch, d))) = FSM_STATE_SPIN_UP"
    and "state (fst (channel_steps jps i ((0, p0) # ps @ (t1, p1) # qs) (ch, d))) = FSM_STATE_SPIN_UP"
    and "state (fst (channel_steps jps i ((0, p0) # ps @ (t1, p1) # qs @ [(t2, p2)]) (ch, d)))
           = FSM_STATE_RUNNING"
proof -
  let ?a = "ch\<lparr>time := 0, state := FSM_STATE_POWER_ON\<rparr>"
  let ?b = "ch\<lparr>state := FSM_STATE_SPIN_UP, time := t1, prev_sample_time := t1\<rparr>"
  let ?e = "drive_low (of_nat i) d"
  have s1: "channel_steps jps i [(0, p0)] (ch, d) = (?a, d)"
    using assms(1) by (simp add: fsm_channel_INIT)
  have s2: "channel_steps jps i ((0, p0) # ps) (ch, d) = (?a, d)"
    using assms(1,2) channel_steps_power_on_wait [of ?a ps jps i d]
    by (simp add: fsm_channel_INIT)
  have gt: "POWER_ON_JIFFIES < t1 - time ?a"
    using assms(3) by (simp add: POWER_ON_JIFFIES_def word_greater_zero_iff)
  have s3: "channel_steps jps i ((0, p0) # ps @ [(t1, p1)]) (ch, d) = (?b, ?e)"
    using channel_steps_append [of jps i "(0, p0) # ps" "[(t1, p1)]" "(ch, d)"] gt
    by (simp only: s2 append_Cons [symmetric]) (simp add: fsm_channel_POWER_ON)
  have w: "state (fst (channel_steps jps i qs (?b, ?e))) = FSM_STATE_SPIN_UP \<and>
           time (fst (channel_steps jps i qs (?b, ?e))) = t1"
    using channel_steps_spin_up_wait [of ?b qs jps i ?e] assms(4) by simp
  have s4: "channel_steps jps i ((0, p0) # ps @ (t1, p1) # qs) (ch, d) =
            channel_steps jps i qs (?b, ?e)"
    using channel_steps_append [of jps i "(0, p0) # ps @ [(t1, p1)]" qs "(ch, d)"]
    by (simp add: s3 del: channel_steps.simps)
  obtain c4 d4 where c4: "channel_steps jps i qs (?b, ?e) = (c4, d4)"
    by (cases "channel_steps jps i qs (?b, ?e)")
  with w have c4s: "state c4 = FSM_STATE_SPIN_UP" "time c4 = t1" by simp_all
  have s5: "channel_steps jps i ((0, p0) # ps @ (t1, p1) # qs @ [(t2, p2)]) (ch, d) =
            fsm_channel jps i t2 p2 (c4, d4)"
    using channel_steps_append [of jps i "(0, p0) # ps @ (t1, p1) # qs" "[(t2, p2)]" "(ch, d)"]
    by (simp only: s4 c4) simp
  show "state (fst (channel_steps jps i [(0, p0)] (ch, d))) = FSM_STATE_POWER_ON"
    by (simp only: s1) simp
  show "state (fst (channel_steps jps i ((0, p0) # ps) (ch, d))) = FSM_STATE_POWER_ON"
    by (simp only: s2) simp
  show "state (fst (channel_steps jps i ((0, p0) # ps @ [(t1, p1)]) (ch, d))) = FSM_STATE_SPIN_UP"
    by (simp only: s3) simp
  show "state (fst (channel_steps jps i ((0, p0) # ps @ (t1, p1) # qs) (ch, d))) = FSM_STATE_SPIN_UP"
    using w by (simp only: s4)
  show "state (fst (channel_steps jps i ((0, p0) # ps @ (t1, p1) # qs @ [(t2, p2)]) (ch, d)))
           = FSM_STATE_RUNNING"
    using c4s assms(5) by (simp only: s5) (simp add: fsm_channel_SPIN_UP)
qed

lemma rounds_of_simps:
  "rounds_of i [] = []"
  "rounds_of i ((t, pins) # xs) = (t, pins i) # rounds_of i xs"
  "rounds_of i (xs @ ys) = rounds_of i xs @ rounds_of i ys"
  by (simp_all add: rounds_of_def)

lemma fsm_steps_state:
  "i < NUM_CHANNELS \<Longrightarrow>
   state (channels (fst (fsm_steps jps xs (inst, d))) i) =
   state (fst (channel_steps jps i (rounds_of i xs) (channels inst i, d)))"
  using fsm_steps_channel [of i d d jps xs inst] by simp

text \<open>
  C4. \<open>POWER_ON_JIFFIES\<close> is 0 and \<open>SPIN_UP_JIFFIES\<close> is five times \<open>SAMPLE_JIFFIES\<close>.
  A channel in \<open>FSM_STATE_INIT\<close> is in \<open>FSM_STATE_POWER_ON\<close> after its first round at
  tick 0 and stays there through further rounds at tick 0; the first round at a later
  tick \<open>t1\<close> puts it in \<open>FSM_STATE_SPIN_UP\<close>; it stays there through the rounds no more
  than \<open>SPIN_UP_JIFFIES\<close> after \<open>t1\<close>, and the first round more than \<open>SPIN_UP_JIFFIES\<close>
  after \<open>t1\<close> puts it in \<open>FSM_STATE_RUNNING\<close>, whatever the inputs and whatever
  \<open>under_threshold\<close> holds.
\<close>

theorem state_sequencing:
  assumes "i < NUM_CHANNELS" and "state (channels inst i) = FSM_STATE_INIT"
    and "\<forall>r\<in>set ps. fst r = 0" and "t1 \<noteq> 0"
    and "\<forall>r\<in>set qs. fst r - t1 \<le> SPIN_UP_JIFFIES jps" and "SPIN_UP_JIFFIES jps < t2 - t1"
  shows "POWER_ON_JIFFIES = 0 \<and> SPIN_UP_JIFFIES jps = 5 * SAMPLE_JIFFIES jps \<and>
    state (channels (fst (fsm_steps jps [(0, p0)] (inst, ddrb))) i) = FSM_STATE_POWER_ON \<and>
    state (channels (fst (fsm_steps jps ((0, p0) # ps) (inst, ddrb))) i) = FSM_STATE_POWER_ON \<and>
    state (channels (fst (fsm_steps jps ((0, p0) # ps @ [(t1, p1)]) (inst, ddrb))) i)
      = FSM_STATE_SPIN_UP \<and>
    state (channels (fst (fsm_steps jps ((0, p0) # ps @ (t1, p1) # qs) (inst, ddrb))) i)
      = FSM_STATE_SPIN_UP \<and>
    state (channels (fst (fsm_steps jps ((0, p0) # ps @ (t1, p1) # qs @ [(t2, p2)]) (inst, ddrb))) i)
      = FSM_STATE_RUNNING"
proof -
  have a: "\<forall>r\<in>set (rounds_of i ps). fst r = 0"
    using assms(3) by (auto simp add: rounds_of_def)
  have b: "\<forall>r\<in>set (rounds_of i qs). fst r - t1 \<le> SPIN_UP_JIFFIES jps"
    using assms(5) by (auto simp add: rounds_of_def)
  note c = channel_steps_sequence [OF assms(2) a assms(4) b assms(6)]
  have "POWER_ON_JIFFIES = 0" "SPIN_UP_JIFFIES jps = 5 * SAMPLE_JIFFIES jps"
    by (simp_all add: POWER_ON_JIFFIES_def SPIN_UP_JIFFIES_def)
  with c show ?thesis
    unfolding fsm_steps_state [OF assms(1)] rounds_of_simps
    by (simp del: channel_steps.simps)
qed

theorem state_sequencing_witness:
  "(0::nat) < NUM_CHANNELS \<and> state (channels g_inst 0) = FSM_STATE_INIT \<and>
   (1 :: jiffies_t) \<noteq> 0 \<and>
   (300000 :: jiffies_t) - 1 \<le> SPIN_UP_JIFFIES 125000 \<and>
   (625001 :: jiffies_t) - 1 \<le> SPIN_UP_JIFFIES 125000 \<and>
   SPIN_UP_JIFFIES 125000 < 625002 - 1 \<and>
   state (channels (fst (fsm_steps 125000 [(0, \<lambda>_. 0)] (g_inst, 0))) 0) = FSM_STATE_POWER_ON \<and>
   state (channels (fst (fsm_steps 125000 ((0, \<lambda>_. 0) # [(0, \<lambda>_. 0)]) (g_inst, 0))) 0)
     = FSM_STATE_POWER_ON \<and>
   state (channels (fst (fsm_steps 125000 ((0, \<lambda>_. 0) # [(0, \<lambda>_. 0)] @ [(1, \<lambda>_. 0)])
     (g_inst, 0))) 0) = FSM_STATE_SPIN_UP \<and>
   state (channels (fst (fsm_steps 125000 ((0, \<lambda>_. 0) # [(0, \<lambda>_. 0)] @ (1, \<lambda>_. 0) #
     [(300000, \<lambda>_. 4), (625001, \<lambda>_. 0)]) (g_inst, 0))) 0) = FSM_STATE_SPIN_UP \<and>
   state (channels (fst (fsm_steps 125000 ((0, \<lambda>_. 0) # [(0, \<lambda>_. 0)] @ (1, \<lambda>_. 0) #
     [(300000, \<lambda>_. 4), (625001, \<lambda>_. 0)] @ [(625002, \<lambda>_. 0)]) (g_inst, 0))) 0)
     = FSM_STATE_RUNNING"
proof -
  have h1: "(0::nat) < NUM_CHANNELS" by (simp add: NUM_CHANNELS_def)
  have h2: "state (channels g_inst 0) = FSM_STATE_INIT" by (simp add: g_inst_def)
  have h3: "\<forall>r\<in>set [(0 :: jiffies_t, \<lambda>_ :: nat. 0 :: 8 word)]. fst r = 0" by simp
  have h4: "(1 :: jiffies_t) \<noteq> 0" by simp
  have h5: "\<forall>r\<in>set [(300000 :: jiffies_t, \<lambda>_ :: nat. 4 :: 8 word), (625001, \<lambda>_. 0)].
      fst r - 1 \<le> SPIN_UP_JIFFIES 125000"
    by (simp add: SPIN_UP_JIFFIES_def SAMPLE_JIFFIES_def)
  have h6: "SPIN_UP_JIFFIES 125000 < 625002 - 1"
    by (simp add: SPIN_UP_JIFFIES_def SAMPLE_JIFFIES_def)
  from state_sequencing [OF h1 h2 h3 h4 h5 h6, where ?p0.0 = "\<lambda>_. 0" and ?p1.0 = "\<lambda>_. 0"
      and ?p2.0 = "\<lambda>_. 0" and ddrb = 0] h1 h2 h4 h5 h6
  show ?thesis by simp
qed

section \<open>The first verdict\<close>

lemma fsm_channel_boundary:
  assumes "window_boundary jps t ch"
  shows "under_threshold (fst (fsm_channel jps i t p (ch, d))) =
           (toggles_counted i p ch < TOGGLE_COUNT_THRESHOLD)"
proof -
  from assms have st: "state ch = FSM_STATE_SPIN_UP \<or> state ch = FSM_STATE_RUNNING"
    and el: "t - prev_sample_time ch > SAMPLE_JIFFIES jps"
    by (simp_all add: window_boundary_def)
  from st show ?thesis
    by (auto simp add: fsm_channel_SPIN_UP fsm_channel_RUNNING Let_def
        sampling_step_boundary [OF el])
qed

lemma fsm_channel_no_boundary:
  assumes "\<not> window_boundary jps t ch"
  shows "under_threshold (fst (fsm_channel jps i t p (ch, d))) = under_threshold ch"
proof (cases "state ch = FSM_STATE_SPIN_UP \<or> state ch = FSM_STATE_RUNNING")
  case True
  with assms have el: "\<not> t - prev_sample_time ch > SAMPLE_JIFFIES jps"
    by (auto simp add: window_boundary_def)
  from True show ?thesis
    by (auto simp add: fsm_channel_SPIN_UP fsm_channel_RUNNING Let_def
        sampling_step_mid_window [OF el])
next
  case False
  then show ?thesis by (simp add: fsm_channel_under_threshold_other)
qed

lemma fsm_steps_snoc:
  "i < NUM_CHANNELS \<Longrightarrow>
   channels (fst (fsm_steps jps (xs @ [(t, pins)]) (inst, d))) i =
   fst (fsm_channel jps i t (pins i) (channels (fst (fsm_steps jps xs (inst, d))) i, d'))"
proof -
  assume i: "i < NUM_CHANNELS"
  obtain inst1 d1 where a: "fsm_steps jps xs (inst, d) = (inst1, d1)"
    by (cases "fsm_steps jps xs (inst, d)")
  have "fst (fsm_channel jps i t (pins i) (channels inst1 i, d1)) =
        fst (fsm_channel jps i t (pins i) (channels inst1 i, d'))"
    by (rule fsm_channel_fst)
  with fsm_for_channel [OF i, of d1 d1 jps t pins inst1] show ?thesis
    by (simp add: fsm_steps_append a)
qed

text \<open>Before a channel leaves \<open>FSM_STATE_SPIN_UP\<close> one of its rounds there has closed a window.\<close>

lemma latched_before_running:
  assumes i: "i < NUM_CHANNELS" and init: "state (channels inst i) = FSM_STATE_INIT"
    and le: "SAMPLE_JIFFIES jps \<le> SPIN_UP_JIFFIES jps"
  shows "state (channels (fst (fsm_steps jps rounds (inst, ddrb))) i) \<le> FSM_STATE_POWER_ON \<or>
    (state (channels (fst (fsm_steps jps rounds (inst, ddrb))) i) = FSM_STATE_SPIN_UP \<and>
     prev_sample_time (channels (fst (fsm_steps jps rounds (inst, ddrb))) i) =
       time (channels (fst (fsm_steps jps rounds (inst, ddrb))) i)) \<or>
    ((state (channels (fst (fsm_steps jps rounds (inst, ddrb))) i) = FSM_STATE_SPIN_UP \<or>
      state (channels (fst (fsm_steps jps rounds (inst, ddrb))) i) = FSM_STATE_RUNNING) \<and>
     (\<exists>xs t pins ys. rounds = xs @ (t, pins) # ys \<and>
        state (channels (fst (fsm_steps jps xs (inst, ddrb))) i) = FSM_STATE_SPIN_UP \<and>
        window_boundary jps t (channels (fst (fsm_steps jps xs (inst, ddrb))) i)))"
  (is "?A rounds \<or> ?B rounds \<or> (?S rounds \<and> ?L rounds)")
proof (induction rounds rule: rev_induct)
  case Nil
  from init show ?case by (simp add: fsm_state_defs)
next
  case (snoc r rounds)
  obtain t pins where r: "r = (t, pins)" by (cases r)
  let ?c = "channels (fst (fsm_steps jps rounds (inst, ddrb))) i"
  let ?c' = "channels (fst (fsm_steps jps (rounds @ [r]) (inst, ddrb))) i"
  have step: "?c' = fst (fsm_channel jps i t (pins i) (?c, ddrb))"
    unfolding r by (rule fsm_steps_snoc [OF i])
  have keep: "?L rounds \<Longrightarrow> ?L (rounds @ [r])"
  proof -
    assume "?L rounds"
    then obtain xs t' pins' ys where "rounds = xs @ (t', pins') # ys"
      and "state (channels (fst (fsm_steps jps xs (inst, ddrb))) i) = FSM_STATE_SPIN_UP"
      and "window_boundary jps t' (channels (fst (fsm_steps jps xs (inst, ddrb))) i)"
      by blast
    then have "rounds @ [r] = xs @ (t', pins') # (ys @ [r]) \<and>
      state (channels (fst (fsm_steps jps xs (inst, ddrb))) i) = FSM_STATE_SPIN_UP \<and>
      window_boundary jps t' (channels (fst (fsm_steps jps xs (inst, ddrb))) i)"
      by simp
    then show "?L (rounds @ [r])" by blast
  qed
  from snoc.IH consider (a) "?A rounds" | (b) "?B rounds" | (c) "?S rounds" "?L rounds"
    by blast
  then show ?case
  proof cases
    case a
    then have "state ?c = FSM_STATE_INIT \<or> state ?c = FSM_STATE_POWER_ON"
      by (auto simp add: fsm_state_defs)
    then have "?A (rounds @ [r]) \<or> ?B (rounds @ [r])"
      unfolding step
      by (auto simp add: fsm_channel_INIT fsm_channel_POWER_ON)
    then show ?thesis by blast
  next
    case b
    then have st: "state ?c = FSM_STATE_SPIN_UP" and eq: "prev_sample_time ?c = time ?c"
      by simp_all
    show ?thesis
    proof (cases "window_boundary jps t ?c")
      case True
      with st have "rounds @ [r] = rounds @ (t, pins) # [] \<and> state ?c = FSM_STATE_SPIN_UP \<and>
         window_boundary jps t ?c"
        by (simp add: r)
      then have l: "?L (rounds @ [r])" by blast
      from st have "?S (rounds @ [r])"
        unfolding step by (simp add: fsm_channel_SPIN_UP)
      with l show ?thesis by blast
    next
      case False
      with st have el: "\<not> t - prev_sample_time ?c > SAMPLE_JIFFIES jps"
        by (simp add: window_boundary_def)
      with le eq have "\<not> t - time ?c > SPIN_UP_JIFFIES jps"
        by simp
      with st eq have "?B (rounds @ [r])"
        unfolding step
        by (simp add: fsm_channel_SPIN_UP sampling_step_mid_window [OF el])
      then show ?thesis by blast
    qed
  next
    case c
    from c(1) have "?S (rounds @ [r])"
      unfolding step
      by (auto simp add: fsm_channel_SPIN_UP fsm_channel_RUNNING Let_def)
    with keep [OF c(2)] show ?thesis by blast
  qed
qed

text \<open>
  \<open>under_threshold\<close> is the verdict of the last round that closed a window, or still
  its first value when no round has closed one.
\<close>

lemma verdict_of_last_window:
  assumes i: "i < NUM_CHANNELS"
  shows "(\<exists>xs t pins ys. rounds = xs @ (t, pins) # ys \<and>
        window_boundary jps t (channels (fst (fsm_steps jps xs (inst, ddrb))) i) \<and>
        under_threshold (channels (fst (fsm_steps jps rounds (inst, ddrb))) i) =
          (toggles_counted i (pins i) (channels (fst (fsm_steps jps xs (inst, ddrb))) i)
             < TOGGLE_COUNT_THRESHOLD)) \<or>
    ((\<forall>xs t pins ys. rounds = xs @ (t, pins) # ys \<longrightarrow>
        \<not> window_boundary jps t (channels (fst (fsm_steps jps xs (inst, ddrb))) i)) \<and>
     under_threshold (channels (fst (fsm_steps jps rounds (inst, ddrb))) i) =
       under_threshold (channels inst i))"
  (is "?V rounds \<or> (?N rounds \<and> ?U rounds)")
proof (induction rounds rule: rev_induct)
  case Nil
  show ?case by simp
next
  case (snoc r rounds)
  obtain t pins where r: "r = (t, pins)" by (cases r)
  let ?c = "channels (fst (fsm_steps jps rounds (inst, ddrb))) i"
  let ?c' = "channels (fst (fsm_steps jps (rounds @ [r]) (inst, ddrb))) i"
  have step: "?c' = fst (fsm_channel jps i t (pins i) (?c, ddrb))"
    unfolding r by (rule fsm_steps_snoc [OF i])
  show ?case
  proof (cases "window_boundary jps t ?c")
    case True
    from fsm_channel_boundary [OF True, of i "pins i" ddrb] step
    have "under_threshold ?c' = (toggles_counted i (pins i) ?c < TOGGLE_COUNT_THRESHOLD)"
      by simp
    with True have "rounds @ [r] = rounds @ (t, pins) # [] \<and> window_boundary jps t ?c \<and>
      under_threshold ?c' = (toggles_counted i (pins i) ?c < TOGGLE_COUNT_THRESHOLD)"
      by (simp add: r)
    then have "?V (rounds @ [r])" by blast
    then show ?thesis by blast
  next
    case False
    from fsm_channel_no_boundary [OF False, of i "pins i" ddrb] step
    have same: "under_threshold ?c' = under_threshold ?c" by simp
    from snoc.IH show ?thesis
    proof
      assume "?V rounds"
      then obtain xs t' pins' ys where d: "rounds = xs @ (t', pins') # ys"
        and w: "window_boundary jps t' (channels (fst (fsm_steps jps xs (inst, ddrb))) i)"
        and u: "under_threshold ?c =
          (toggles_counted i (pins' i) (channels (fst (fsm_steps jps xs (inst, ddrb))) i)
             < TOGGLE_COUNT_THRESHOLD)"
        by blast
      from d w u same have "rounds @ [r] = xs @ (t', pins') # (ys @ [r]) \<and>
        window_boundary jps t' (channels (fst (fsm_steps jps xs (inst, ddrb))) i) \<and>
        under_threshold ?c' =
          (toggles_counted i (pins' i) (channels (fst (fsm_steps jps xs (inst, ddrb))) i)
             < TOGGLE_COUNT_THRESHOLD)"
        by simp
      then have "?V (rounds @ [r])" by blast
      then show ?thesis by blast
    next
      assume n: "?N rounds \<and> ?U rounds"
      have "?N (rounds @ [r])"
      proof (intro allI impI)
        fix xs t' pins' ys
        assume d: "rounds @ [r] = xs @ (t', pins') # ys"
        show "\<not> window_boundary jps t' (channels (fst (fsm_steps jps xs (inst, ddrb))) i)"
        proof (cases ys rule: rev_cases)
          case Nil
          with d r have "xs = rounds" "t' = t" by simp_all
          with False show ?thesis by simp
        next
          case (snoc zs z)
          with d have "rounds = xs @ (t', pins') # zs" by simp
          with n show ?thesis by blast
        qed
      qed
      moreover from n same have "?U (rounds @ [r])" by simp
      ultimately show ?thesis by blast
    qed
  qed
qed

text \<open>
  C10. When \<open>SPIN_UP_JIFFIES\<close> is at least \<open>SAMPLE_JIFFIES\<close>, a channel that began in
  \<open>FSM_STATE_INIT\<close> and has reached \<open>FSM_STATE_RUNNING\<close> has closed a sample window in
  one of its rounds in \<open>FSM_STATE_SPIN_UP\<close>, that is, no later than the round that
  moved it to \<open>FSM_STATE_RUNNING\<close>; and \<open>under_threshold\<close> holds the verdict of the
  last round that closed a window, not the value it started with.
\<close>

theorem first_verdict_from_window:
  assumes "i < NUM_CHANNELS" and "state (channels inst i) = FSM_STATE_INIT"
    and "SAMPLE_JIFFIES jps \<le> SPIN_UP_JIFFIES jps"
    and "state (channels (fst (fsm_steps jps rounds (inst, ddrb))) i) = FSM_STATE_RUNNING"
  shows "(\<exists>xs t pins ys. rounds = xs @ (t, pins) # ys \<and>
        state (channels (fst (fsm_steps jps xs (inst, ddrb))) i) = FSM_STATE_SPIN_UP \<and>
        window_boundary jps t (channels (fst (fsm_steps jps xs (inst, ddrb))) i)) \<and>
    (\<exists>xs t pins ys. rounds = xs @ (t, pins) # ys \<and>
        window_boundary jps t (channels (fst (fsm_steps jps xs (inst, ddrb))) i) \<and>
        under_threshold (channels (fst (fsm_steps jps rounds (inst, ddrb))) i) =
          (toggles_counted i (pins i) (channels (fst (fsm_steps jps xs (inst, ddrb))) i)
             < TOGGLE_COUNT_THRESHOLD))"
proof -
  from latched_before_running [OF assms(1,2,3), of rounds ddrb] assms(4)
  have l: "\<exists>xs t pins ys. rounds = xs @ (t, pins) # ys \<and>
        state (channels (fst (fsm_steps jps xs (inst, ddrb))) i) = FSM_STATE_SPIN_UP \<and>
        window_boundary jps t (channels (fst (fsm_steps jps xs (inst, ddrb))) i)"
    by (simp add: fsm_state_defs)
  then have "\<not> (\<forall>xs t pins ys. rounds = xs @ (t, pins) # ys \<longrightarrow>
        \<not> window_boundary jps t (channels (fst (fsm_steps jps xs (inst, ddrb))) i))"
    by blast
  with verdict_of_last_window [OF assms(1), of rounds jps inst ddrb] l
  show ?thesis by blast
qed

theorem first_verdict_from_window_witness:
  "(0::nat) < NUM_CHANNELS \<and> state (channels g_inst 0) = FSM_STATE_INIT \<and>
   SAMPLE_JIFFIES 125000 \<le> SPIN_UP_JIFFIES 125000 \<and>
   state (channels (fst (fsm_steps 125000
     [(0, \<lambda>_. 0), (1, \<lambda>_. 0), (625002, \<lambda>_. 0)] (g_inst, 0))) 0) = FSM_STATE_RUNNING \<and>
   (\<exists>xs t pins ys. [(0 :: jiffies_t, \<lambda>_ :: nat. 0 :: 8 word), (1, \<lambda>_. 0), (625002, \<lambda>_. 0)]
        = xs @ (t, pins) # ys \<and>
      state (channels (fst (fsm_steps 125000 xs (g_inst, 0))) 0) = FSM_STATE_SPIN_UP \<and>
      window_boundary 125000 t (channels (fst (fsm_steps 125000 xs (g_inst, 0))) 0)) \<and>
   (\<exists>xs t pins ys. [(0 :: jiffies_t, \<lambda>_ :: nat. 0 :: 8 word), (1, \<lambda>_. 0), (625002, \<lambda>_. 0)]
        = xs @ (t, pins) # ys \<and>
      window_boundary 125000 t (channels (fst (fsm_steps 125000 xs (g_inst, 0))) 0) \<and>
      under_threshold (channels (fst (fsm_steps 125000
        [(0, \<lambda>_. 0), (1, \<lambda>_. 0), (625002, \<lambda>_. 0)] (g_inst, 0))) 0) =
        (toggles_counted 0 (pins 0) (channels (fst (fsm_steps 125000 xs (g_inst, 0))) 0)
           < TOGGLE_COUNT_THRESHOLD))"
proof -
  have h1: "(0::nat) < NUM_CHANNELS" by (simp add: NUM_CHANNELS_def)
  have h2: "state (channels g_inst 0) = FSM_STATE_INIT" by (simp add: g_inst_def)
  have h3: "SAMPLE_JIFFIES 125000 \<le> SPIN_UP_JIFFIES 125000"
    by (simp add: SPIN_UP_JIFFIES_def SAMPLE_JIFFIES_def)
  have h4: "state (channels (fst (fsm_steps 125000
     [(0, \<lambda>_. 0), (1, \<lambda>_. 0), (625002, \<lambda>_. 0)] (g_inst, 0))) 0) = FSM_STATE_RUNNING"
    by (simp add: fsm_for_0 fsm_channel_def g_inst_def fsm_state_defs POWER_ON_JIFFIES_def
        SPIN_UP_JIFFIES_def SAMPLE_JIFFIES_def Let_def)
  from first_verdict_from_window [OF h1 h2 h3 h4] h1 h2 h3 h4
  show ?thesis by blast
qed

section \<open>One call of jiffies\<close>

lemma hw_ticks_add: "hw_ticks a (hw_ticks b m) = hw_ticks (b + a) m"
  by (induction b arbitrary: m) simp_all

lemma hw_ticks_hi [simp]: "timer_ticks_hi (hw_ticks n m) = timer_ticks_hi m"
  by (induction n arbitrary: m) (simp_all add: hw_tick_def Let_def)

lemma hw_ticks_elapsed [simp]: "ticks_elapsed (hw_ticks n m) = ticks_elapsed m + n"
  by (induction n arbitrary: m) (simp_all add: hw_tick_def Let_def)

lemma elapse_hw_ticks:
  "elapse env m = (env', m') \<Longrightarrow> \<exists>n. m' = hw_ticks n m \<and> n + sum_list env' = sum_list env"
  by (cases env) (auto simp add: elapse_def intro: exI [of _ 0])

text \<open>
  The samples the loop returns are the counter and the flag of one and the same
  instant of the call.
\<close>

lemma jiffies_loop_sample:
  "jiffies_loop env m = (b, tcnt, env', m') \<Longrightarrow>
   \<exists>k j. tcnt = TCNT0 (hw_ticks k m) \<and> b = tov0_pending (hw_ticks k m) \<and>
         m' = hw_ticks j (hw_ticks k m) \<and> k + j + sum_list env' = sum_list env"
proof (induction env m arbitrary: b tcnt env' m' rule: jiffies_loop.induct)
  case (1 env m)
  obtain env1 m1 where e1: "elapse env m = (env1, m1)" by (cases "elapse env m")
  obtain env2 m2 where e2: "elapse env1 m1 = (env2, m2)" by (cases "elapse env1 m1")
  obtain env3 m3 where e3: "elapse env2 m2 = (env3, m3)" by (cases "elapse env2 m2")
  from elapse_hw_ticks [OF e1] obtain n1 where n1: "m1 = hw_ticks n1 m"
    "n1 + sum_list env1 = sum_list env" by blast
  from elapse_hw_ticks [OF e2] obtain n2 where n2: "m2 = hw_ticks n2 m1"
    "n2 + sum_list env2 = sum_list env1" by blast
  from elapse_hw_ticks [OF e3] obtain n3 where n3: "m3 = hw_ticks n3 m2"
    "n3 + sum_list env3 = sum_list env2" by blast
  show ?case
  proof (cases "tov0_pending m1 = tov0_pending m3")
    case True
    with "1.prems" e1 e2 e3
    have r: "b = tov0_pending m1" "tcnt = TCNT0 m2" "env' = env3" "m' = m3"
      by (auto simp add: jiffies_loop.simps [of env m] Let_def)
    have "tov0_pending m2 = tov0_pending m1"
      using True tov0_pending_hw_ticks [of m1 n2] tov0_pending_hw_ticks [of m2 n3] n2 n3
      by auto
    with r n1 n2 n3 have "tcnt = TCNT0 (hw_ticks (n1 + n2) m) \<and>
        b = tov0_pending (hw_ticks (n1 + n2) m) \<and>
        m' = hw_ticks n3 (hw_ticks (n1 + n2) m) \<and> (n1 + n2) + n3 + sum_list env' = sum_list env"
      by (simp add: hw_ticks_add)
    then show ?thesis by blast
  next
    case False
    with "1.prems" e1 e2 e3 have rec: "jiffies_loop env3 m3 = (b, tcnt, env', m')"
      by (simp add: jiffies_loop.simps [of env m] Let_def)
    from "1.IH" [OF e1 [symmetric] refl e2 [symmetric] refl e3 [symmetric] refl _ rec] False
    obtain k j where kj: "tcnt = TCNT0 (hw_ticks k m3)" "b = tov0_pending (hw_ticks k m3)"
      "m' = hw_ticks j (hw_ticks k m3)" "k + j + sum_list env' = sum_list env3"
      by blast
    have m3: "m3 = hw_ticks (n1 + n2 + n3) m"
      using n1 n2 n3 by (simp add: hw_ticks_add)
    from kj n1 n2 n3 have "tcnt = TCNT0 (hw_ticks (n1 + n2 + n3 + k) m) \<and>
        b = tov0_pending (hw_ticks (n1 + n2 + n3 + k) m) \<and>
        m' = hw_ticks j (hw_ticks (n1 + n2 + n3 + k) m) \<and>
        (n1 + n2 + n3 + k) + j + sum_list env' = sum_list env"
      by (simp add: m3 hw_ticks_add)
    then show ?thesis by blast
  qed
qed

text \<open>
  C1. A call of \<open>jiffies\<close> returns the accumulator plus the counter value its loop
  sampled, plus 256 exactly when the flag the loop read before the counter was set; and
  the two samples are the counter and the flag of one instant of the call, so that the
  value is what the clock showed at that instant.
\<close>

theorem jiffies_compensated_pair:
  "\<exists>tifr_before tcnt env' m1 k j.
     jiffies_loop env m = (tifr_before, tcnt, env', m1) \<and>
     fst (jiffies env m) =
       timer_ticks_hi m1 + ucast tcnt + (if tifr_before then 256 else 0) \<and>
     tcnt = TCNT0 (hw_ticks k m) \<and> tifr_before = tov0_pending (hw_ticks k m) \<and>
     timer_ticks_hi m1 = timer_ticks_hi (hw_ticks k m) \<and>
     fst (jiffies env m) = tick_value (hw_ticks k m) \<and>
     snd (jiffies env m) = irq_dispatch (hw_ticks j (hw_ticks k m))"
proof -
  obtain b tcnt env' m1 where l: "jiffies_loop env m = (b, tcnt, env', m1)"
    by (cases "jiffies_loop env m") auto
  from jiffies_loop_sample [OF l] obtain k j where kj: "tcnt = TCNT0 (hw_ticks k m)"
    "b = tov0_pending (hw_ticks k m)" "m1 = hw_ticks j (hw_ticks k m)"
    by blast
  have r: "fst (jiffies env m) = timer_ticks_hi m1 + ucast tcnt + (if b then 256 else 0)"
    and s: "snd (jiffies env m) = irq_dispatch m1"
    by (simp_all add: jiffies_def l Let_def)
  have h: "timer_ticks_hi m1 = timer_ticks_hi (hw_ticks k m)"
    by (simp add: kj(3))
  have v: "fst (jiffies env m) = tick_value (hw_ticks k m)"
    unfolding r tick_value_def h kj(1) kj(2) by simp
  from l r s h v kj show ?thesis by blast
qed

section \<open>The clock over many calls\<close>

lemma tov0_pending_cleared:
  "\<not> tov0_pending (m\<lparr>TIFR := TIFR m AND NOT (push_bit TOV0 1)\<rparr>)"
  by (simp add: tov0_pending_bit TOV0_def bit_simps)

lemma tov0_pending_hi [simp]:
  "tov0_pending (m\<lparr>timer_ticks_hi := h\<rparr>) = tov0_pending m"
  by (simp add: tov0_pending_def)

lemma irq_dispatch_clear: "\<not> tov0_pending (irq_dispatch m)"
  using tov0_pending_cleared [of m] by (simp add: irq_dispatch_def TIMER0_OVF_vect_def)

lemma irq_dispatch_elapsed [simp]: "ticks_elapsed (irq_dispatch m) = ticks_elapsed m"
  by (simp add: irq_dispatch_def TIMER0_OVF_vect_def)

lemma tick_value_irq_dispatch: "tick_value (irq_dispatch m) = tick_value m"
proof (cases "tov0_pending m")
  case True
  have "tick_value (irq_dispatch m) = timer_ticks_hi m + 256 + ucast (TCNT0 m)"
    using True tov0_pending_cleared [of m]
    by (simp add: irq_dispatch_def TIMER0_OVF_vect_def tick_value_def)
  with True show ?thesis by (simp add: tick_value_def)
next
  case False
  then show ?thesis by (simp add: irq_dispatch_def)
qed

lemma unat_not_255:
  assumes "x \<noteq> (255 :: 8 word)"
  shows "unat x < 255"
proof -
  have "unat x < 2 ^ LENGTH(8)" by (rule unsigned_less)
  then have lt: "unat x < 256" by simp
  have "unat x \<noteq> 255"
  proof
    assume "unat x = 255"
    then have "of_nat (unat x) = (of_nat 255 :: 8 word)" by simp
    then have "x = 255" by simp
    with assms show False by simp
  qed
  with lt show ?thesis by simp
qed

lemma unat_plus_one: "unat x < 255 \<Longrightarrow> unat ((x :: 8 word) + 1) = unat x + 1"
  by (simp add: unat_word_ariths)

lemma ucast_plus_one:
  "unat x < 255 \<Longrightarrow> (ucast ((x :: 8 word) + 1) :: 32 word) = ucast x + 1"
  using unat_plus_one [of x] by (metis Abs_fnat_hom_add of_nat_1 of_nat_unat)

lemma plus_one_wraps: "((x :: 8 word) + 1 = 0) = (x = 255)"
proof
  assume "x + 1 = 0"
  then show "x = 255"
    using unat_not_255 [of x] unat_plus_one [of x] by (cases "x = 255") auto
next
  assume "x = 255"
  then show "x + 1 = 0" by simp
qed

text \<open>
  With the interrupts masked the clock loses a range of the counter when the counter
  wraps while an overflow is still pending. A period that does not do so advances the
  clock by one, and fewer than 256 periods in a row cannot do so when they begin with
  no overflow pending.
\<close>

lemma tick_value_hw_tick:
  assumes "tov0_pending m \<longrightarrow> unat (TCNT0 m) < 255"
  shows "tick_value (hw_tick m) = tick_value m + 1"
proof (cases "TCNT0 m = 255")
  case True
  with assms have np: "\<not> tov0_pending m" by auto
  from True have "tov0_pending (hw_tick m)" "TCNT0 (hw_tick m) = 0"
    "timer_ticks_hi (hw_tick m) = timer_ticks_hi m"
    by (simp_all add: tov0_pending_hw_tick) (simp_all add: hw_tick_def Let_def)
  with np True show ?thesis by (simp add: tick_value_def)
next
  case False
  then have lt: "unat (TCNT0 m) < 255" by (rule unat_not_255)
  from False have "tov0_pending (hw_tick m) = tov0_pending m"
    by (simp add: tov0_pending_hw_tick plus_one_wraps)
  moreover have "TCNT0 (hw_tick m) = TCNT0 m + 1" "timer_ticks_hi (hw_tick m) = timer_ticks_hi m"
    by (simp_all add: hw_tick_def Let_def)
  ultimately show ?thesis
    by (simp add: tick_value_def ucast_plus_one [OF lt])
qed

lemma hw_tick_safe:
  assumes "tov0_pending m \<longrightarrow> unat (TCNT0 m) + Suc r < 256" and "Suc r < 256"
  shows "tov0_pending (hw_tick m) \<longrightarrow> unat (TCNT0 (hw_tick m)) + r < 256"
proof
  assume p: "tov0_pending (hw_tick m)"
  have c: "TCNT0 (hw_tick m) = TCNT0 m + 1" by (simp add: hw_tick_def Let_def)
  show "unat (TCNT0 (hw_tick m)) + r < 256"
  proof (cases "tov0_pending m")
    case True
    with assms have "unat (TCNT0 m) < 255" by simp
    from unat_plus_one [OF this] True assms show ?thesis by (simp add: c)
  next
    case False
    with p have "TCNT0 m + 1 = 0" by (simp add: tov0_pending_hw_tick)
    with assms(2) show ?thesis by (simp add: c)
  qed
qed

lemma hw_ticks_safe:
  "tov0_pending m \<longrightarrow> unat (TCNT0 m) + (n + r) < 256 \<Longrightarrow> n + r < 256 \<Longrightarrow>
   tick_value (hw_ticks n m) = tick_value m + of_nat n \<and>
   (tov0_pending (hw_ticks n m) \<longrightarrow> unat (TCNT0 (hw_ticks n m)) + r < 256)"
proof (induction n arbitrary: m)
  case 0
  then show ?case by simp
next
  case (Suc n)
  from Suc.prems have a: "tov0_pending m \<longrightarrow> unat (TCNT0 m) + Suc (n + r) < 256"
    and b: "Suc (n + r) < 256" by simp_all
  from a have "tov0_pending m \<longrightarrow> unat (TCNT0 m) < 255" by auto
  then have v: "tick_value (hw_tick m) = tick_value m + 1" by (rule tick_value_hw_tick)
  from hw_tick_safe [OF a b] b Suc.IH [of "hw_tick m"]
  show ?case by (simp add: v)
qed

lemma synced_hw_ticks:
  assumes "synced m" and "\<not> tov0_pending m" and "n + r < 256"
  shows "synced (hw_ticks n m) \<and>
    (tov0_pending (hw_ticks n m) \<longrightarrow> unat (TCNT0 (hw_ticks n m)) + r < 256)"
  using hw_ticks_safe [of m n r] assms by (simp add: synced_def)

lemma run_ticks_synced:
  "synced m \<Longrightarrow> \<not> tov0_pending m \<Longrightarrow>
   synced (run_ticks n m) \<and> \<not> tov0_pending (run_ticks n m) \<and>
   ticks_elapsed (run_ticks n m) = ticks_elapsed m + n"
proof (induction n arbitrary: m)
  case 0
  then show ?case by simp
next
  case (Suc n)
  let ?m = "irq_dispatch (hw_tick m)"
  from Suc.prems(2) have "tick_value (hw_tick m) = tick_value m + 1"
    by (intro tick_value_hw_tick) simp
  with Suc.prems(1) have s: "synced ?m"
    by (simp add: synced_def tick_value_irq_dispatch hw_tick_def Let_def)
  have e: "ticks_elapsed ?m = ticks_elapsed m + 1"
    by (simp add: hw_tick_def Let_def)
  from Suc.IH [OF s irq_dispatch_clear] e show ?case by simp
qed

text \<open>A short call returns the number of periods elapsed at one of its instants.\<close>

lemma jiffies_call:
  assumes "synced m" and "\<not> tov0_pending m" and "sum_list env < 256"
  shows "\<exists>k j. k + j \<le> sum_list env \<and>
           fst (jiffies env m) = of_nat (ticks_elapsed m + k) \<and>
           ticks_elapsed (snd (jiffies env m)) = ticks_elapsed m + k + j \<and>
           synced (snd (jiffies env m)) \<and> \<not> tov0_pending (snd (jiffies env m))"
proof -
  obtain b tcnt env' m1 where l: "jiffies_loop env m = (b, tcnt, env', m1)"
    by (cases "jiffies_loop env m") auto
  from jiffies_loop_sample [OF l] obtain k j where kj: "tcnt = TCNT0 (hw_ticks k m)"
    "b = tov0_pending (hw_ticks k m)" "m1 = hw_ticks j (hw_ticks k m)"
    "k + j + sum_list env' = sum_list env"
    by blast
  with assms(3) have lt: "k + j < 256" by simp
  from kj(4) have bd: "k + j \<le> sum_list env" by simp
  have r: "fst (jiffies env m) = timer_ticks_hi m1 + ucast tcnt + (if b then 256 else 0)"
    and s: "snd (jiffies env m) = irq_dispatch m1"
    by (simp_all add: jiffies_def l Let_def)
  have v: "fst (jiffies env m) = tick_value (hw_ticks k m)"
    unfolding r tick_value_def kj(1) kj(2) kj(3) by simp
  from synced_hw_ticks [OF assms(1,2) lt]
  have a: "synced (hw_ticks k m)" by simp
  from synced_hw_ticks [OF assms(1,2), of "k + j" 0] lt
  have c: "synced m1" by (simp add: kj(3) hw_ticks_add)
  from a v have "fst (jiffies env m) = of_nat (ticks_elapsed m + k)"
    by (simp add: synced_def)
  moreover have "ticks_elapsed (snd (jiffies env m)) = ticks_elapsed m + k + j"
    by (simp add: s kj(3))
  moreover from c have "synced (snd (jiffies env m))"
    by (simp add: s synced_def tick_value_irq_dispatch)
  moreover have "\<not> tov0_pending (snd (jiffies env m))"
    by (simp add: s irq_dispatch_clear)
  ultimately show ?thesis using bd by blast
qed

lemma jiffies_trace_windows:
  "synced m \<Longrightarrow> \<not> tov0_pending m \<Longrightarrow> calls_short evs \<Longrightarrow>
   (\<forall>x\<in>set (jiffies_trace evs m).
      ticks_elapsed m \<le> fst x \<and>
      (\<exists>t. fst x \<le> t \<and> t \<le> snd (snd x) \<and> fst (snd x) = of_nat t)) \<and>
   sorted_wrt (\<lambda>x y. snd (snd x) \<le> fst y) (jiffies_trace evs m)"
proof (induction evs m rule: jiffies_trace.induct)
  case (1 m)
  show ?case by simp
next
  case (2 n es m)
  from run_ticks_synced [OF "2.prems"(1,2), of n]
  have r: "synced (run_ticks n m)" "\<not> tov0_pending (run_ticks n m)"
    "ticks_elapsed (run_ticks n m) = ticks_elapsed m + n"
    by simp_all
  from "2.prems"(3) have sh: "calls_short es" by simp
  from "2.IH" [OF r(1,2) sh]
  have ih: "\<forall>x\<in>set (jiffies_trace es (run_ticks n m)).
      ticks_elapsed m + n \<le> fst x \<and>
      (\<exists>t. fst x \<le> t \<and> t \<le> snd (snd x) \<and> fst (snd x) = of_nat t)"
    and so: "sorted_wrt (\<lambda>x y. snd (snd x) \<le> fst y) (jiffies_trace es (run_ticks n m))"
    by (simp_all add: r(3))
  from ih have "\<forall>x\<in>set (jiffies_trace es (run_ticks n m)).
      ticks_elapsed m \<le> fst x \<and>
      (\<exists>t. fst x \<le> t \<and> t \<le> snd (snd x) \<and> fst (snd x) = of_nat t)"
    by (meson add_leD1)
  with so show ?case by simp
next
  case (3 env es m)
  obtain ret m' where j: "jiffies env m = (ret, m')" by (cases "jiffies env m")
  from "3.prems"(3) have sh: "sum_list env < 256" "calls_short es" by simp_all
  from jiffies_call [OF "3.prems"(1,2) sh(1)] j obtain k i where
    c: "ret = of_nat (ticks_elapsed m + k)" "ticks_elapsed m' = ticks_elapsed m + k + i"
      "synced m'" "\<not> tov0_pending m'"
    by auto
  from "3.IH" [OF j [symmetric] c(3,4) sh(2)]
  have ih: "\<forall>x\<in>set (jiffies_trace es m').
      ticks_elapsed m' \<le> fst x \<and>
      (\<exists>t. fst x \<le> t \<and> t \<le> snd (snd x) \<and> fst (snd x) = of_nat t)"
    and so: "sorted_wrt (\<lambda>x y. snd (snd x) \<le> fst y) (jiffies_trace es m')"
    by simp_all
  have first: "\<exists>t. ticks_elapsed m \<le> t \<and> t \<le> ticks_elapsed m' \<and> ret = of_nat t"
    using c(1,2) by (intro exI [of _ "ticks_elapsed m + k"]) simp
  have le: "ticks_elapsed m \<le> ticks_elapsed m'" using c(2) by simp
  from ih le have rest: "\<forall>x\<in>set (jiffies_trace es m').
      ticks_elapsed m \<le> fst x \<and>
      (\<exists>t. fst x \<le> t \<and> t \<le> snd (snd x) \<and> fst (snd x) = of_nat t)"
    by (meson le_trans)
  from ih have ord: "\<forall>x\<in>set (jiffies_trace es m'). ticks_elapsed m' \<le> fst x"
    by blast
  have tr: "jiffies_trace (Call env # es) m =
      (ticks_elapsed m, ret, ticks_elapsed m') # jiffies_trace es m'"
    by (simp add: j)
  show ?case
    unfolding tr using first rest so ord by simp
qed

lemma returned_alt: "returned tr = map (\<lambda>x. fst (snd x)) tr"
  by (simp add: returned_def case_prod_beta)

lemma of_nat_mono_jiffies:
  "s \<le> t \<Longrightarrow> t < 2 ^ 32 \<Longrightarrow> (of_nat s :: jiffies_t) \<le> of_nat t"
  by (simp add: word_le_nat_alt unat_of_nat take_bit_nat_eq_self)

lemma sorted_returned:
  "\<forall>x\<in>set tr. \<exists>t. fst x \<le> t \<and> t \<le> snd (snd x) \<and> fst (snd x) = of_nat t \<Longrightarrow>
   sorted_wrt (\<lambda>x y. snd (snd x) \<le> fst y) tr \<Longrightarrow>
   \<forall>x\<in>set tr. snd (snd x) < 2 ^ 32 \<Longrightarrow>
   sorted (returned tr)"
proof (induction tr)
  case Nil
  then show ?case by (simp add: returned_alt)
next
  case (Cons x tr)
  from Cons.prems(1) obtain s where s: "s \<le> snd (snd x)" "fst (snd x) = of_nat s"
    by auto
  have "fst (snd x) \<le> fst (snd y)" if y: "y \<in> set tr" for y
  proof -
    from Cons.prems(1) y obtain t where t: "fst y \<le> t" "t \<le> snd (snd y)"
      "fst (snd y) = of_nat t"
      by auto
    from Cons.prems(2) y have "snd (snd x) \<le> fst y" by simp
    with s(1) t(1) have "s \<le> t" by simp
    moreover from Cons.prems(3) y t(2) have "t < 2 ^ 32" by auto
    ultimately show ?thesis unfolding s(2) t(3) by (rule of_nat_mono_jiffies)
  qed
  moreover from Cons have "sorted (returned tr)" by simp
  ultimately show ?case by (simp add: returned_alt)
qed

lemma jiffies_init_synced: "synced (jiffies_init m) \<and> \<not> tov0_pending (jiffies_init m)"
  using tov0_pending_cleared [of m]
  by (simp add: synced_def tick_value_def jiffies_init_def tov0_pending_def)

text \<open>
  C2, as the code has it. From a state in which the clock is right and no overflow is
  pending, which is the state \<open>jiffies_init\<close> leaves, and as long as no call spends 256
  or more timer periods inside \<open>jiffies\<close>: every call returns the number of periods
  elapsed at an instant between its entry and its return, modulo \<open>2 ^ 32\<close>, also when
  the counter overflows between the two reads of the flag; and the values returned are
  non-decreasing as long as fewer than \<open>2 ^ 32\<close> periods have elapsed.
\<close>

theorem jiffies_monotone_until_wrap:
  assumes "synced m" and "\<not> tov0_pending m" and "calls_short evs"
  shows "(\<forall>(entered, ret, left)\<in>set (jiffies_trace evs m).
            \<exists>t. entered \<le> t \<and> t \<le> left \<and> ret = of_nat t) \<and>
         ((\<forall>(entered, ret, left)\<in>set (jiffies_trace evs m). left < 2 ^ 32) \<longrightarrow>
            sorted (returned (jiffies_trace evs m))) \<and>
         synced (jiffies_init m0) \<and> \<not> tov0_pending (jiffies_init m0)"
proof -
  from jiffies_trace_windows [OF assms]
  have w: "\<forall>x\<in>set (jiffies_trace evs m).
      \<exists>t. fst x \<le> t \<and> t \<le> snd (snd x) \<and> fst (snd x) = of_nat t"
    and o: "sorted_wrt (\<lambda>x y. snd (snd x) \<le> fst y) (jiffies_trace evs m)"
    by simp_all
  from w have a: "\<forall>(entered, ret, left)\<in>set (jiffies_trace evs m).
            \<exists>t. entered \<le> t \<and> t \<le> left \<and> ret = of_nat t"
    by (simp add: case_prod_beta)
  have b: "sorted (returned (jiffies_trace evs m))"
    if "\<forall>(entered, ret, left)\<in>set (jiffies_trace evs m). left < 2 ^ 32"
  proof -
    from that have "\<forall>x\<in>set (jiffies_trace evs m). snd (snd x) < 2 ^ 32"
      by (simp add: case_prod_beta)
    with w o show ?thesis by (rule sorted_returned)
  qed
  from a b jiffies_init_synced [of m0] show ?thesis by blast
qed

theorem jiffies_monotone_until_wrap_witness:
  "synced \<lparr>timer_ticks_hi = 0, TCNT0 = 255, TIFR = 0, DDRB = 0, ticks_elapsed = 255\<rparr> \<and>
   \<not> tov0_pending \<lparr>timer_ticks_hi = 0, TCNT0 = 255, TIFR = 0, DDRB = 0, ticks_elapsed = 255\<rparr> \<and>
   calls_short [Call [0, 0, 1], Ticks 2, Call []] \<and>
   jiffies_trace [Call [0, 0, 1], Ticks 2, Call []]
     \<lparr>timer_ticks_hi = 0, TCNT0 = 255, TIFR = 0, DDRB = 0, ticks_elapsed = 255\<rparr> =
     [(255, 256, 256), (258, 258, 258)] \<and>
   sorted (returned (jiffies_trace [Call [0, 0, 1], Ticks 2, Call []]
     \<lparr>timer_ticks_hi = 0, TCNT0 = 255, TIFR = 0, DDRB = 0, ticks_elapsed = 255\<rparr>))"
proof -
  let ?m = "\<lparr>timer_ticks_hi = 0, TCNT0 = 255, TIFR = 0, DDRB = 0, ticks_elapsed = 255\<rparr>"
  let ?evs = "[Call [0, 0, 1], Ticks 2, Call []]"
  have h1: "synced ?m"
    by (simp add: synced_def tick_value_def tov0_pending_def)
  have h2: "\<not> tov0_pending ?m"
    by (simp add: tov0_pending_def)
  have h3: "calls_short ?evs" by simp
  have c1: "jiffies [0, 0, Suc 0] ?m =
      (256, \<lparr>timer_ticks_hi = 256, TCNT0 = 0, TIFR = 0, DDRB = 0, ticks_elapsed = 256\<rparr>)"
    by (simp add: jiffies_def jiffies_loop.simps elapse_def hw_tick_def tov0_pending_def
        irq_dispatch_def TIMER0_OVF_vect_def TOV0_def Let_def)
  have t2: "run_ticks 2 \<lparr>timer_ticks_hi = 256, TCNT0 = 0, TIFR = 0, DDRB = 0, ticks_elapsed = 256\<rparr>
      = \<lparr>timer_ticks_hi = 256, TCNT0 = 2, TIFR = 0, DDRB = 0, ticks_elapsed = 258\<rparr>"
    by (simp add: eval_nat_numeral hw_tick_def tov0_pending_def irq_dispatch_def TOV0_def Let_def)
  have c2: "jiffies [] \<lparr>timer_ticks_hi = 256, TCNT0 = 2, TIFR = 0, DDRB = 0, ticks_elapsed = 258\<rparr>
      = (258, \<lparr>timer_ticks_hi = 256, TCNT0 = 2, TIFR = 0, DDRB = 0, ticks_elapsed = 258\<rparr>)"
    by (simp add: jiffies_def jiffies_loop.simps elapse_def tov0_pending_def
        irq_dispatch_def TOV0_def Let_def)
  have tr: "jiffies_trace ?evs ?m = [(255, 256, 256), (258, 258, 258)]"
    by (simp add: c1 t2 c2)
  have h4: "\<forall>(entered, ret, left)\<in>set (jiffies_trace ?evs ?m). left < 2 ^ 32"
    by (simp only: tr) simp
  from jiffies_monotone_until_wrap [OF h1 h2 h3] h4
  have "sorted (returned (jiffies_trace ?evs ?m))" by blast
  with h1 h2 h3 tr show ?thesis by blast
qed

text \<open>
  C2 as it is stated fails where the tick type wraps: the call made \<open>2 ^ 32 - 1\<close>
  periods after \<open>jiffies_init\<close> returns \<open>2 ^ 32 - 1\<close> and a call one period later
  returns 0.
\<close>

theorem jiffies_wraps_counterexample:
  "\<not> sorted (returned (jiffies_trace [Ticks 4294967295, Call [], Ticks 1, Call []]
     (jiffies_init \<lparr>timer_ticks_hi = 0, TCNT0 = 0, TIFR = 0, DDRB = 0, ticks_elapsed = 0\<rparr>)))"
proof -
  let ?m0 = "jiffies_init \<lparr>timer_ticks_hi = 0, TCNT0 = 0, TIFR = 0, DDRB = 0, ticks_elapsed = 0\<rparr>"
  let ?m1 = "run_ticks 4294967295 ?m0"
  obtain r1 m2 where j1: "jiffies [] ?m1 = (r1, m2)" by (cases "jiffies [] ?m1")
  let ?m3 = "run_ticks (Suc 0) m2"
  obtain r2 m4 where j2: "jiffies [] ?m3 = (r2, m4)" by (cases "jiffies [] ?m3")
  have e0: "ticks_elapsed ?m0 = 0" by (simp add: jiffies_init_def)
  from run_ticks_synced [of ?m0 4294967295] jiffies_init_synced e0
  have m1: "synced ?m1" "\<not> tov0_pending ?m1" "ticks_elapsed ?m1 = 4294967295"
    by simp_all
  from jiffies_call [OF m1(1,2), of "[]"] j1 m1(3)
  have c1: "r1 = of_nat 4294967295" "ticks_elapsed m2 = 4294967295" "synced m2"
    "\<not> tov0_pending m2"
    by auto
  from run_ticks_synced [OF c1(3,4), of "Suc 0"] c1(2)
  have m3: "synced ?m3" "\<not> tov0_pending ?m3" "ticks_elapsed ?m3 = 4294967296"
    by simp_all
  from jiffies_call [OF m3(1,2), of "[]"] j2 m3(3)
  have c2: "r2 = of_nat 4294967296"
    by auto
  have "returned (jiffies_trace [Ticks 4294967295, Call [], Ticks 1, Call []] ?m0) = [r1, r2]"
    by (simp add: returned_def j1 j2 del: run_ticks.simps)
  moreover have "r1 = 4294967295" "r2 = 0"
    by (simp_all add: c1(1) c2)
  ultimately show ?thesis by simp
qed

lemma hw_ticks_TCNT0: "TCNT0 (hw_ticks n m) = TCNT0 m + of_nat n"
  by (induction n arbitrary: m) (simp_all add: hw_tick_def Let_def)

text \<open>
  The bound on the time spent inside a call is needed: when the counter runs through
  its whole range twice inside one call, one overflow is lost, and from then on the
  clock is one range behind. Here the second call is entered and left 512 periods
  after \<open>jiffies_init\<close> and returns 256.
\<close>

lemma long_call_loses_a_range:
  "jiffies_trace [Call [256, 256], Call []] (jiffies_init m) =
     [(0, 256, 512), (512, 256, 512)]"
proof -
  let ?m0 = "jiffies_init m"
  let ?m1 = "hw_ticks 256 ?m0"
  let ?m2 = "hw_ticks 256 ?m1"
  have z: "TCNT0 ?m0 = 0" "timer_ticks_hi ?m0 = 0" "ticks_elapsed ?m0 = 0"
    by (simp_all add: jiffies_init_def)
  have c1: "TCNT0 ?m1 = 0" by (simp add: hw_ticks_TCNT0 z)
  have "?m1 = hw_tick (hw_ticks 255 ?m0)"
    using hw_ticks_add [of 1 255 ?m0] by simp
  moreover have "TCNT0 (hw_ticks 255 ?m0) = 255" by (simp add: hw_ticks_TCNT0 z)
  ultimately have p1: "tov0_pending ?m1" by (simp add: tov0_pending_hw_tick)
  then have p2: "tov0_pending ?m2" by (rule tov0_pending_hw_ticks)
  have c2: "TCNT0 ?m2 = 0" by (simp add: hw_ticks_TCNT0 z)
  have l: "jiffies_loop [256, 256] ?m0 = (True, 0, [], ?m2)"
    by (subst jiffies_loop.simps) (simp add: elapse_def Let_def p1 p2 c2)
  have j1: "jiffies [256, 256] ?m0 = (256, irq_dispatch ?m2)"
    by (simp add: jiffies_def l z)
  define m3 where "m3 = irq_dispatch ?m2"
  have m3: "\<not> tov0_pending m3" "TCNT0 m3 = 0" "timer_ticks_hi m3 = 256"
    "ticks_elapsed m3 = 512"
    unfolding m3_def using p2 c2
    by (simp_all add: irq_dispatch_clear z) (simp_all add: irq_dispatch_def TIMER0_OVF_vect_def z)
  have idle: "irq_dispatch m3 = m3"
    using m3(1) by (simp add: irq_dispatch_def)
  have l2: "jiffies_loop [] m3 = (False, 0, [], m3)"
    by (subst jiffies_loop.simps) (simp add: elapse_def Let_def m3)
  have j2: "jiffies [] m3 = (256, m3)"
    by (simp add: jiffies_def l2 m3 idle)
  have "jiffies_trace [Call [256, 256], Call []] ?m0 =
      [(ticks_elapsed ?m0, 256, ticks_elapsed m3), (ticks_elapsed m3, 256, ticks_elapsed m3)]"
    by (simp add: j1 j2 m3_def [symmetric])
  then show ?thesis
    by (simp only: m3 z)
qed

section \<open>The main loop\<close>

lemma DDRB_hw_ticks [simp]: "DDRB (hw_ticks n m) = DDRB m"
  by (induction n arbitrary: m) (simp_all add: hw_tick_def Let_def)

lemma DDRB_irq_dispatch [simp]: "DDRB (irq_dispatch m) = DDRB m"
  by (simp add: irq_dispatch_def TIMER0_OVF_vect_def)

lemma DDRB_run_ticks [simp]: "DDRB (run_ticks n m) = DDRB m"
  by (induction n arbitrary: m) (simp_all add: hw_tick_def Let_def)

lemma DDRB_jiffies [simp]: "DDRB (snd (jiffies env m)) = DDRB m"
proof -
  obtain b tcnt env' m1 where l: "jiffies_loop env m = (b, tcnt, env', m1)"
    by (cases "jiffies_loop env m") auto
  from jiffies_loop_sample [OF l] obtain k j where "m1 = hw_ticks j (hw_ticks k m)"
    by blast
  then show ?thesis by (simp add: jiffies_def l Let_def)
qed

text \<open>
  The rounds of \<open>main\<close> are rounds of the state machine at the times \<open>jiffies\<close>
  returned, so what holds of \<open>fsm_steps\<close> for all times holds of \<open>main_loop\<close>.
\<close>

lemma main_loop_fsm_steps:
  "\<exists>times. length times = length rounds \<and>
     (case main_loop jps rounds (inst, m) of (inst', m') \<Rightarrow> (inst', DDRB m')) =
       fsm_steps jps (zip times (map (\<lambda>(d, env, pins). pins) rounds)) (inst, DDRB m)"
proof (induction rounds arbitrary: inst m)
  case Nil
  show ?case by simp
next
  case (Cons r rounds)
  obtain d env pins where r: "r = (d, env, pins)" by (cases r)
  obtain t m2 where j: "jiffies env (run_ticks d m) = (t, m2)"
    by (cases "jiffies env (run_ticks d m)")
  from DDRB_jiffies [of env "run_ticks d m"] j have d2: "DDRB m2 = DDRB m" by simp
  obtain inst1 ddrb1 where f: "fsm_for jps t pins 0 (inst, DDRB m) = (inst1, ddrb1)"
    by (cases "fsm_for jps t pins 0 (inst, DDRB m)")
  have step: "fsm_run jps env pins (inst, run_ticks d m) = (inst1, m2\<lparr>DDRB := ddrb1\<rparr>)"
    by (simp add: fsm_run_def j d2 f)
  from Cons.IH [of inst1 "m2\<lparr>DDRB := ddrb1\<rparr>"] obtain times where
    ts: "length times = length rounds"
      "(case main_loop jps rounds (inst1, m2\<lparr>DDRB := ddrb1\<rparr>) of
          (inst', m') \<Rightarrow> (inst', DDRB m')) =
        fsm_steps jps (zip times (map (\<lambda>(d, env, pins). pins) rounds)) (inst1, ddrb1)"
    by auto
  have "length (t # times) = length (r # rounds) \<and>
     (case main_loop jps (r # rounds) (inst, m) of (inst', m') \<Rightarrow> (inst', DDRB m')) =
       fsm_steps jps (zip (t # times) (map (\<lambda>(d, env, pins). pins) (r # rounds))) (inst, DDRB m)"
    using ts by (simp add: r step f)
  then show ?case by blast
qed

end
